theory Spec2Isabelle
  imports Main "HOL-Library.Sublist"
begin

section \<open>JavaScript strings\<close>

text \<open>
  A JavaScript string is a sequence of UTF-16 code units. A code unit is modelled by its
  number, so that the classes \<open>\s\<close>, \<open>\w\<close> and \<open>.\<close> of the regular expression and
  \<open>String.prototype.trim\<close> are the sets ECMAScript gives them. \<open>js\<close> turns an ASCII
  literal into its code units.
\<close>

type_synonym jsstring = "nat list"

definition js :: "string \<Rightarrow> jsstring" where
  "js s = map of_char s"

text \<open>
  \<open>\s\<close>: WhiteSpace and LineTerminator of ECMAScript (TAB, LF, VT, FF, CR, SP, NBSP,
  U+1680, U+2000..U+200A, U+2028, U+2029, U+202F, U+205F, U+3000, U+FEFF). \<open>trim\<close>
  strips the same set.
\<close>

definition is_space :: "nat \<Rightarrow> bool" where
  "is_space c \<longleftrightarrow>
     (9 \<le> c \<and> c \<le> 13) \<or> c = 32 \<or> c = 160 \<or> c = 5760 \<or> (8192 \<le> c \<and> c \<le> 8202) \<or>
     c = 8232 \<or> c = 8233 \<or> c = 8239 \<or> c = 8287 \<or> c = 12288 \<or> c = 65279"

text \<open>\<open>\w\<close> is \<open>[A-Za-z0-9_]\<close>.\<close>

definition is_word :: "nat \<Rightarrow> bool" where
  "is_word c \<longleftrightarrow> (48 \<le> c \<and> c \<le> 57) \<or> (65 \<le> c \<and> c \<le> 90) \<or> c = 95 \<or> (97 \<le> c \<and> c \<le> 122)"

text \<open>\<open>.\<close> (without the \<open>s\<close> flag) is every code unit but LF, CR, U+2028 and U+2029.\<close>

definition is_dot :: "nat \<Rightarrow> bool" where
  "is_dot c \<longleftrightarrow> c \<noteq> 10 \<and> c \<noteq> 13 \<and> c \<noteq> 8232 \<and> c \<noteq> 8233"

definition trim :: "jsstring \<Rightarrow> jsstring" where
  "trim s = rev (dropWhile is_space (rev (dropWhile is_space s)))"

text \<open>
  \<open>Buffer.from(s, 'utf8')\<close>: the UTF-8 bytes of the string. A high surrogate followed by
  a low surrogate is one code point of four bytes; a surrogate that stands alone is
  written as U+FFFD.
\<close>

definition is_high_surrogate :: "nat \<Rightarrow> bool" where
  "is_high_surrogate c \<longleftrightarrow> 55296 \<le> c \<and> c \<le> 56319"

definition is_low_surrogate :: "nat \<Rightarrow> bool" where
  "is_low_surrogate c \<longleftrightarrow> 56320 \<le> c \<and> c \<le> 57343"

definition utf8_enc :: "nat \<Rightarrow> nat list" where
  "utf8_enc cp =
     (if cp < 128 then [cp]
      else if cp < 2048 then [192 + cp div 64, 128 + cp mod 64]
      else if cp < 65536 then [224 + cp div 4096, 128 + (cp div 64) mod 64, 128 + cp mod 64]
      else [240 + cp div 262144, 128 + (cp div 4096) mod 64, 128 + (cp div 64) mod 64,
            128 + cp mod 64])"

fun utf8 :: "jsstring \<Rightarrow> nat list" where
  "utf8 [] = []"
| "utf8 [c] =
     (if is_high_surrogate c \<or> is_low_surrogate c then [239, 191, 189] else utf8_enc c)"
| "utf8 (c # d # s) =
     (if is_high_surrogate c \<and> is_low_surrogate d
      then utf8_enc (65536 + (c - 55296) * 1024 + (d - 56320)) @ utf8 s
      else if is_high_surrogate c \<or> is_low_surrogate c then [239, 191, 189] @ utf8 (d # s)
      else utf8_enc c @ utf8 (d # s))"

section \<open>The regular expression of processAndWriteFiles\<close>

text \<open>
  The pattern of \<open>codeBlockRegex\<close> is a sequence of literals, greedy stars over a
  character class and capture groups that hold one lazy star over a character class. The
  matcher is the backtracking matcher of ECMAScript for such a sequence: a greedy star
  first tries one more code unit and falls back to the rest of the pattern, a lazy star
  first tries the rest of the pattern and falls back to one more code unit. The result is
  the list of captures and the text after the match.
\<close>

datatype cclass = Word | Space | Dot | Any

fun in_class :: "cclass \<Rightarrow> nat \<Rightarrow> bool" where
  "in_class Word c = is_word c"
| "in_class Space c = is_space c"
| "in_class Dot c = is_dot c"
| "in_class Any c = True"

datatype atom = Lit jsstring | Greedy cclass | LazyCap cclass

fun rmatch :: "atom list \<Rightarrow> jsstring \<Rightarrow> (jsstring list \<times> jsstring) option" where
  "rmatch [] s = Some ([], s)"
| "rmatch (Lit l # r) s = (if prefix l s then rmatch r (drop (length l) s) else None)"
| "rmatch (Greedy k # r) [] = rmatch r []"
| "rmatch (Greedy k # r) (c # s) =
     (if in_class k c
      then (case rmatch (Greedy k # r) s of Some m \<Rightarrow> Some m | None \<Rightarrow> rmatch r (c # s))
      else rmatch r (c # s))"
| "rmatch (LazyCap k # r) [] =
     (case rmatch r [] of Some (caps, rest) \<Rightarrow> Some ([] # caps, rest) | None \<Rightarrow> None)"
| "rmatch (LazyCap k # r) (c # s) =
     (case rmatch r (c # s) of
        Some (caps, rest) \<Rightarrow> Some ([] # caps, rest)
      | None \<Rightarrow>
          if in_class k c
          then (case rmatch (LazyCap k # r) s of
                  Some (cap # caps, rest) \<Rightarrow> Some ((c # cap) # caps, rest)
                | _ \<Rightarrow> None)
          else None)"

text \<open>
  \<^verbatim>\<open>/```[\w]*\s*\n\/\/ FILE: (.*?)\n([\s\S]*?)\n```/g\<close>
\<close>

definition codeBlockRegex :: "atom list" where
  "codeBlockRegex =
     [Lit (js ''```''), Greedy Word, Greedy Space, Lit [10], Lit (js ''// FILE: ''),
      LazyCap Dot, Lit [10], LazyCap Any, Lit (10 # js ''```'')]"

text \<open>
  \<open>codeBlockRegex.exec\<close> with the \<open>g\<close> flag searches from \<open>lastIndex\<close> for the
  leftmost position where the pattern matches, and on success moves \<open>lastIndex\<close> to the
  end of the match. The text from \<open>lastIndex\<close> on is the argument; the text after the
  match is part of the result.
\<close>

fun exec :: "jsstring \<Rightarrow> (jsstring list \<times> jsstring) option" where
  "exec [] = rmatch codeBlockRegex []"
| "exec (c # s) =
     (case rmatch codeBlockRegex (c # s) of Some m \<Rightarrow> Some m | None \<Rightarrow> exec s)"

text \<open>
  A match of \<open>codeBlockRegex\<close> consumes at least the opening fence, so every call of
  \<open>exec\<close> that succeeds leaves a strictly shorter text: the loop below terminates.
\<close>

lemma rmatch_length: "rmatch r s = Some (caps, rest) \<Longrightarrow> length rest \<le> length s"
proof (induction r s arbitrary: caps rest rule: rmatch.induct)
  case (1 s)
  then show ?case by simp
next
  case (2 l r s)
  from "2.prems" have p: "prefix l s" and m: "rmatch r (drop (length l) s) = Some (caps, rest)"
    by (simp_all split: if_splits)
  from "2.IH" [OF p m] show ?case by simp
next
  case (3 k r)
  then show ?case by simp
next
  case (4 k r c s)
  show ?case
  proof (cases "in_class k c")
    case False
    with "4.prems" have "rmatch r (c # s) = Some (caps, rest)" by simp
    from "4.IH"(3) [OF False this] show ?thesis .
  next
    case True
    show ?thesis
    proof (cases "rmatch (Greedy k # r) s")
      case None
      with True "4.prems" have "rmatch r (c # s) = Some (caps, rest)" by simp
      from "4.IH"(2) [OF True None this] show ?thesis .
    next
      case (Some m)
      with True "4.prems" have "rmatch (Greedy k # r) s = Some (caps, rest)" by simp
      from "4.IH"(1) [OF True this] show ?thesis by simp
    qed
  qed
next
  case (5 k r)
  then show ?case by (auto split: option.splits prod.splits)
next
  case (6 k r c s)
  show ?case
  proof (cases "rmatch r (c # s)")
    case (Some m)
    with "6.prems" obtain caps' where "rmatch r (c # s) = Some (caps', rest)"
      by (cases m) auto
    from "6.IH"(1) [OF this] show ?thesis .
  next
    case None
    with "6.prems" have k: "in_class k c" by (simp split: if_splits)
    from None k "6.prems" obtain cap caps' where
      "rmatch (LazyCap k # r) s = Some (cap # caps', rest)"
      by (auto split: option.splits list.splits)
    from "6.IH"(2) [OF None k this] show ?thesis by simp
  qed
qed

lemma rmatch_fence_shorter:
  assumes "rmatch (Lit (js ''```'') # r) s = Some (caps, rest)"
  shows "length rest < length s"
proof -
  have l: "length (js ''```'') = 3" by (simp add: js_def)
  from assms have p: "prefix (js ''```'') s"
    and m: "rmatch r (drop (length (js ''```'')) s) = Some (caps, rest)"
    by (simp_all split: if_splits)
  from p have "length (js ''```'') \<le> length s" by (rule prefix_length_le)
  with rmatch_length [OF m] l show ?thesis by simp
qed

lemma rmatch_empty: "rmatch codeBlockRegex [] = None"
  by (simp add: codeBlockRegex_def js_def)

lemma exec_shorter: "exec s = Some (caps, rest) \<Longrightarrow> length rest < length s"
proof (induction s)
  case Nil
  then show ?case by (simp add: rmatch_empty)
next
  case (Cons c s)
  show ?case
  proof (cases "rmatch codeBlockRegex (c # s)")
    case None
    with Cons.prems have "exec s = Some (caps, rest)" by simp
    from Cons.IH [OF this] show ?thesis by simp
  next
    case (Some m)
    with Cons.prems have "rmatch codeBlockRegex (c # s) = Some (caps, rest)" by simp
    then show ?thesis unfolding codeBlockRegex_def by (rule rmatch_fence_shorter)
  qed
qed

text \<open>
  The loop \<^verbatim>\<open>while ((match = codeBlockRegex.exec(responseText)) !== null)\<close>, with the
  loop body as a parameter: the body receives \<open>match[1].trim()\<close>,
  \<open>match[2].trim()\<close> and the state of the loop. The pattern has two capture groups,
  so a match always carries two captures; the last case of the function is never taken.
\<close>

function exec_loop :: "(jsstring \<Rightarrow> jsstring \<Rightarrow> 'a \<Rightarrow> 'a) \<Rightarrow> jsstring \<Rightarrow> 'a \<Rightarrow> 'a" where
  "exec_loop body responseText st =
     (case exec responseText of
        None \<Rightarrow> st
      | Some (caps, rest) \<Rightarrow>
          (case caps of
             [m1, m2] \<Rightarrow> exec_loop body rest (body (trim m1) (trim m2) st)
           | _ \<Rightarrow> st))"
  by pat_completeness auto
termination
  by (relation "measure (\<lambda>(body, responseText, st). length responseText)") (auto intro: exec_shorter)


declare exec_loop.simps [simp del]

text \<open>
  The file-write intents of a response: the pairs \<open>(filePath, fileContent)\<close> the loop
  computes, in the order of the iterations.
\<close>

definition extract_intents :: "jsstring \<Rightarrow> (jsstring \<times> jsstring) list" where
  "extract_intents responseText =
     exec_loop (\<lambda>filePath fileContent acc. acc @ [(filePath, fileContent)]) responseText []"

section \<open>Paths and the file system\<close>

text \<open>
  \<open>vscode.Uri.joinPath(base, fragment)\<close> joins the path of \<open>base\<close> and the fragment
  with a separator and normalises the result: empty segments and \<open>.\<close> disappear, \<open>..\<close>
  removes the segment before it and is dropped at the root, and a separator at the end of
  the fragment stays at the end of the path (unless the path has become the root). An
  empty fragment is left out of the join. On a POSIX host, and for every URI that is not
  a \<open>file\<close> URI, the separator is the slash (\<open>posix.join\<close>). On Windows a \<open>file\<close> URI
  is joined with \<open>win32.join\<close>: the slash and the backslash both separate segments, and
  the drive or UNC root of the base path stays as it is.

  A URI is modelled by what \<open>joinPath\<close> leaves alone (\<open>device\<close>: the scheme and
  authority and, on Windows, the drive or UNC root), the segments of its normalised
  absolute path, and whether the path ends with a separator. The URI of a workspace
  folder enters the code only through \<open>joinPath\<close>, which normalises the joined path as a
  whole, so the folder is given by its normalised path.
\<close>

record uri =
  device :: jsstring
  segs :: "jsstring list"
  trailing :: bool

definition is_sep :: "bool \<Rightarrow> nat \<Rightarrow> bool" where
  "is_sep win c \<longleftrightarrow> c = 47 \<or> (win \<and> c = 92)"

fun split_where :: "(nat \<Rightarrow> bool) \<Rightarrow> jsstring \<Rightarrow> jsstring list" where
  "split_where sep [] = [[]]"
| "split_where sep (c # s) =
     (if sep c then [] # split_where sep s
      else (case split_where sep s of [] \<Rightarrow> [[c]] | seg # sgs \<Rightarrow> (c # seg) # sgs))"

definition segments :: "bool \<Rightarrow> jsstring \<Rightarrow> jsstring list" where
  "segments win p = split_where (is_sep win) p"

definition norm_step :: "jsstring list \<Rightarrow> jsstring \<Rightarrow> jsstring list" where
  "norm_step acc seg =
     (if seg = [] \<or> seg = js ''.'' then acc
      else if seg = js ''..'' then butlast acc
      else acc @ [seg])"

definition joinPath :: "bool \<Rightarrow> uri \<Rightarrow> jsstring \<Rightarrow> uri" where
  "joinPath win base fragment =
     (if fragment = [] then base
      else (let sg = foldl norm_step (segs base) (segments win fragment)
            in base\<lparr>segs := sg, trailing := (sg \<noteq> [] \<and> is_sep win (last fragment))\<rparr>))"

text \<open>A location is inside a folder when its path goes through the folder.\<close>

definition inside :: "uri \<Rightarrow> uri \<Rightarrow> bool" where
  "inside folder u \<longleftrightarrow> device u = device folder \<and> prefix (segs folder) (segs u)"

text \<open>
  \<open>vscode.workspace.fs\<close>: the files with their bytes and the directories.
  \<open>createDirectory\<close> creates the directory and its missing parents, \<open>writeFile\<close>
  creates or overwrites a file. Whether an operation fails (permissions, disk, a file in
  the way), and with which message, is the environment's choice: \<open>mkdir_error\<close> and
  \<open>write_error\<close> may depend on the state of the file system and on the path.
  \<open>windows_file\<close> says that the extension host runs on Windows and the workspace
  folder is a \<open>file\<close> URI. A file is identified by its URI; that two URIs can name one
  file (a link, a file system that ignores case) is outside the model.
\<close>

record filesystem =
  files :: "uri \<rightharpoonup> nat list"
  dirs :: "uri set"

record fs_env =
  windows_file :: bool
  mkdir_error :: "filesystem \<Rightarrow> uri \<Rightarrow> jsstring option"
  write_error :: "filesystem \<Rightarrow> uri \<Rightarrow> jsstring option"

definition createDirectory ::
  "'e fs_env_scheme \<Rightarrow> filesystem \<Rightarrow> uri \<Rightarrow> jsstring + filesystem" where
  "createDirectory env fs d =
     (case mkdir_error env fs d of
        Some msg \<Rightarrow> Inl msg
      | None \<Rightarrow> Inr (fs\<lparr>dirs := dirs fs \<union> (\<lambda>sg. d\<lparr>segs := sg\<rparr>) ` set (prefixes (segs d))\<rparr>))"

definition writeFile ::
  "'e fs_env_scheme \<Rightarrow> filesystem \<Rightarrow> uri \<Rightarrow> nat list \<Rightarrow> jsstring + filesystem" where
  "writeFile env fs p content =
     (case write_error env fs p of
        Some msg \<Rightarrow> Inl msg
      | None \<Rightarrow> Inr (fs\<lparr>files := (files fs)(p \<mapsto> content)\<rparr>))"

section \<open>What the extension shows and posts\<close>

text \<open>
  The notifications of \<open>vscode.window\<close> and the messages posted to the webview, by
  their kind and the values interpolated into their texts:
  \<^item> \<open>SavedInfo filePath\<close>: \<^verbatim>\<open>showInformationMessage(`Arquivo salvo: ${filePath}`)\<close>;
  \<^item> \<open>SaveFailed filePath msg\<close>:
    \<^verbatim>\<open>showErrorMessage(`Falha ao salvar o arquivo ${filePath}: ${error.message}`)\<close>;
  \<^item> \<open>NoWorkspaceWarning\<close>: the warning shown when no folder is open;
  \<^item> \<open>AuthFailedError\<close>: the error shown by \<open>getAccessToken\<close>;
  \<^item> \<open>RequestError errorMessage\<close>: \<^verbatim>\<open>showErrorMessage(errorMessage)\<close> of the
    request handler;
  \<^item> \<open>AddSystemMessage n\<close>: the message whose text is \<open>n\<close> followed by
    \<^verbatim>\<open> arquivo(s) foram criados/modificados no seu projeto.\<close>
\<close>

datatype notice =
  SavedInfo jsstring
| SaveFailed jsstring jsstring
| NoWorkspaceWarning
| AuthFailedError
| RequestError jsstring

text \<open>
  A value of a parsed JSON body, or \<open>undefined\<close>, by what the handler does with it: it
  tests its truthiness, converts it to a string and posts it. A number is given by
  whether it is truthy (neither zero nor NaN) and by the string \<open>Number::toString\<close>
  gives for it; an array by the string its elements join to; \<open>JObject\<close> is a plain
  object.
\<close>

datatype jsvalue =
  JUndefined | JNull | JBool bool | JNum bool jsstring | JStr jsstring | JArray jsstring | JObject

fun truthy :: "jsvalue \<Rightarrow> bool" where
  "truthy JUndefined = False"
| "truthy JNull = False"
| "truthy (JBool b) = b"
| "truthy (JNum nonzero printed) = nonzero"
| "truthy (JStr s) = (s \<noteq> [])"
| "truthy (JArray joined) = True"
| "truthy JObject = True"

fun to_string :: "jsvalue \<Rightarrow> jsstring" where
  "to_string JUndefined = js ''undefined''"
| "to_string JNull = js ''null''"
| "to_string (JBool b) = (if b then js ''true'' else js ''false'')"
| "to_string (JNum nonzero printed) = printed"
| "to_string (JStr s) = s"
| "to_string (JArray joined) = joined"
| "to_string JObject = js ''[object Object]''"

text \<open>
  The decimal digits of a natural number: what a template literal prints for an integer
  below \<open>10^21\<close>, and an HTTP status is one.
\<close>

fun digits :: "nat \<Rightarrow> jsstring" where
  "digits n = (if n < 10 then [48 + n] else digits (n div 10) @ [48 + n mod 10])"

declare digits.simps [simp del]

datatype message =
  StreamResponse jsvalue
| ShowError jsstring
| EndStream
| AddSystemMessage nat

datatype effect = Notify notice | Post message

section \<open>processAndWriteFiles\<close>

record wstate =
  fsys :: filesystem
  filesWritten :: nat
  shown :: "notice list"

text \<open>
  The body of the loop: the \<open>try\<close> block joins the path to the root, creates the parent
  directory and writes the file; an error of either operation goes to the \<open>catch\<close>
  block, which shows it, and the loop goes on.
\<close>

definition write_one ::
  "'e fs_env_scheme \<Rightarrow> uri \<Rightarrow> jsstring \<Rightarrow> jsstring \<Rightarrow> wstate \<Rightarrow> wstate" where
  "write_one env rootPath filePath fileContent st =
     (let absolutePath = joinPath (windows_file env) rootPath filePath in
      case createDirectory env (fsys st)
             (joinPath (windows_file env) absolutePath (js ''..'')) of
        Inl msg \<Rightarrow> st\<lparr>shown := shown st @ [SaveFailed filePath msg]\<rparr>
      | Inr fs1 \<Rightarrow>
          (case writeFile env fs1 absolutePath (utf8 fileContent) of
             Inl msg \<Rightarrow> st\<lparr>fsys := fs1, shown := shown st @ [SaveFailed filePath msg]\<rparr>
           | Inr fs2 \<Rightarrow>
               st\<lparr>fsys := fs2, filesWritten := filesWritten st + 1,
                  shown := shown st @ [SavedInfo filePath]\<rparr>))"

definition write_files :: "'e fs_env_scheme \<Rightarrow> uri \<Rightarrow> jsstring \<Rightarrow> filesystem \<Rightarrow> wstate" where
  "write_files env rootPath responseText fs =
     exec_loop (write_one env rootPath) responseText \<lparr>fsys = fs, filesWritten = 0, shown = []\<rparr>"

text \<open>
  \<open>vscode.workspace.workspaceFolders\<close> is \<open>undefined\<close> (\<open>None\<close>) or an array of
  folders, given by their URIs. Without it the function shows a warning and returns.
  An empty array is not falsy: \<open>workspaceFolders[0].uri\<close> then throws a \<open>TypeError\<close>,
  before the loop and outside its \<open>try\<close>. The result is the file system after the
  writes, what was shown and posted, and the message of the error thrown, if any.
\<close>

definition processAndWriteFiles ::
  "'e fs_env_scheme \<Rightarrow> uri list option \<Rightarrow> jsstring \<Rightarrow> filesystem \<Rightarrow>
   filesystem \<times> effect list \<times> jsstring option" where
  "processAndWriteFiles env workspaceFolders responseText fs =
     (case workspaceFolders of
        None \<Rightarrow> (fs, [Notify NoWorkspaceWarning], None)
      | Some [] \<Rightarrow> (fs, [], Some (js ''Cannot read properties of undefined (reading 'uri')''))
      | Some (rootPath # others) \<Rightarrow>
          (let st = write_files env rootPath responseText fs in
           (fsys st,
            map Notify (shown st) @
            (if filesWritten st > 0 then [Post (AddSystemMessage (filesWritten st))] else []),
            None)))"

section \<open>handleCopilotRequest\<close>

text \<open>
  The body of a response as \<open>response.json()\<close> and the handler read it: not JSON (the
  call throws, with a message), the JSON value \<open>null\<close> (reading a property throws a
  \<open>TypeError\<close>), or any other value, of which the handler reads \<open>result.value\<close> and
  \<open>errorBody.error?.message\<close> (both \<open>undefined\<close> for a value that is not an object).
\<close>

datatype response_body =
  NotJson jsstring
| JsonNull
| JsonBody jsvalue jsvalue

datatype fetch_result = NetworkError jsstring | Response nat response_body

text \<open>\<open>response.ok\<close>: the status is in the range 200 to 299.\<close>

definition ok :: "nat \<Rightarrow> bool" where
  "ok status \<longleftrightarrow> 200 \<le> status \<and> status \<le> 299"

text \<open>
  The environment of a request: the session of the authentication provider (\<open>None\<close>
  when \<open>getSession\<close> throws), the remote API as a function of the access token and the
  prompt, the workspace folders, and the file system's platform and errors. The two
  prompt constants of the module are long texts in Portuguese and are taken as
  parameters.
\<close>

record environment = fs_env +
  session :: "jsstring option"
  fetch :: "jsstring \<Rightarrow> jsstring \<Rightarrow> fetch_result"
  workspaceFolders :: "uri list option"
  ARCHITECT_PROMPT :: jsstring
  CODER_PROMPT :: jsstring

text \<open>
  A \<open>try\<close> block is a function to the effects so far and either the message of the error
  thrown (\<open>Inl\<close>) or the result.
\<close>

definition getAccessToken :: "environment \<Rightarrow> effect list \<times> (jsstring + jsstring)" where
  "getAccessToken env =
     (case session env of
        Some accessToken \<Rightarrow> ([], Inr accessToken)
      | None \<Rightarrow> ([Notify AuthFailedError], Inl (js ''Authentication failed'')))"

definition placeholder :: jsstring where
  "placeholder = js ''Nenhuma resposta recebida.''"

definition try_block ::
  "environment \<Rightarrow> filesystem \<Rightarrow> jsstring \<Rightarrow> jsstring \<Rightarrow>
   filesystem \<times> effect list \<times> jsstring option" where
  "try_block env fs userPrompt agent =
     (case getAccessToken env of
        (effs, Inl err) \<Rightarrow> (fs, effs, Some err)
      | (effs, Inr accessToken) \<Rightarrow>
          (let systemPrompt =
                 (if agent = js ''architect'' then ARCHITECT_PROMPT env else CODER_PROMPT env)
           in case fetch env accessToken (systemPrompt @ [10, 10] @ userPrompt) of
                NetworkError err \<Rightarrow> (fs, effs, Some err)
              | Response status body \<Rightarrow>
                  if \<not> ok status then
                    (case body of
                       NotJson err \<Rightarrow> (fs, effs, Some err)
                     | JsonNull \<Rightarrow>
                         (fs, effs, Some (js ''Cannot read properties of null (reading 'error')''))
                     | JsonBody v m \<Rightarrow>
                         (fs, effs,
                          Some (js ''API Error '' @ digits status @ js '': '' @
                                (if truthy m then to_string m else js ''Erro desconhecido''))))
                  else
                    (case body of
                       NotJson err \<Rightarrow> (fs, effs, Some err)
                     | JsonNull \<Rightarrow>
                         (fs, effs, Some (js ''Cannot read properties of null (reading 'value')''))
                     | JsonBody v m \<Rightarrow>
                         (let copilotResponse = (if truthy v then v else JStr placeholder);
                              effs1 = effs @ [Post (StreamResponse copilotResponse)]
                          in if agent = js ''coder''
                             then (case processAndWriteFiles env (workspaceFolders env)
                                          (to_string copilotResponse) fs of
                                     (fs', effs2, thrown) \<Rightarrow> (fs', effs1 @ effs2, thrown))
                             else (fs, effs1, None)))))"

definition handleCopilotRequest ::
  "environment \<Rightarrow> filesystem \<Rightarrow> jsstring \<Rightarrow> jsstring \<Rightarrow> filesystem \<times> effect list" where
  "handleCopilotRequest env fs userPrompt agent =
     (case try_block env fs userPrompt agent of
        (fs', effs, None) \<Rightarrow> (fs', effs @ [Post EndStream])
      | (fs', effs, Some err) \<Rightarrow>
          (let errorMessage = js ''Erro ao se comunicar com o M365 Copilot: '' @ err
           in (fs', effs @ [Notify (RequestError errorMessage), Post (ShowError errorMessage),
                            Post EndStream])))"

text \<open>The messages posted to the webview, in order.\<close>

fun posted :: "effect list \<Rightarrow> message list" where
  "posted [] = []"
| "posted (Post m # es) = m # posted es"
| "posted (Notify n # es) = posted es"

section \<open>The webview and the session\<close>

text \<open>
  \<open>webview/script.js\<close>: the value of the prompt input and whether the send button is
  disabled. \<open>sendMessage\<close> returns the new state and the text it posts to the extension,
  if any. The listener for the messages of the extension enables the button again on
  \<open>endStream\<close> and on \<open>showError\<close>.
\<close>

record webview =
  promptInput :: jsstring
  sendDisabled :: bool

definition sendMessage :: "webview \<Rightarrow> webview \<times> jsstring option" where
  "sendMessage w =
     (if trim (promptInput w) = [] then (w, None)
      else (w\<lparr>sendDisabled := True, promptInput := []\<rparr>, Some (promptInput w)))"

fun on_message :: "message \<Rightarrow> webview \<Rightarrow> webview" where
  "on_message EndStream w = w\<lparr>sendDisabled := False\<rparr>"
| "on_message (ShowError t) w = w\<lparr>sendDisabled := False\<rparr>"
| "on_message m w = w"

text \<open>
  A session is the webview and the number of calls of \<open>handleCopilotRequest\<close> that
  have started and not finished, each with its own remote call. The events: the user
  types into the prompt input, clicks the send button (a disabled button fires no click
  event), presses Enter in the prompt input, or the oldest pending request finishes and
  its \<open>endStream\<close> reaches the webview. The listener of the extension,
  \<open>onDidReceiveMessage\<close>, calls \<open>handleCopilotRequest\<close> for every message it receives.
\<close>

record session_state =
  ui :: webview
  pending :: nat

datatype ui_event = Typed jsstring | ClickSend | EnterKey | RequestDone

definition submit :: "session_state \<Rightarrow> session_state" where
  "submit s =
     (case sendMessage (ui s) of
        (w, None) \<Rightarrow> s\<lparr>ui := w\<rparr>
      | (w, Some t) \<Rightarrow> s\<lparr>ui := w, pending := pending s + 1\<rparr>)"

fun step :: "session_state \<Rightarrow> ui_event \<Rightarrow> session_state" where
  "step s (Typed t) = s\<lparr>ui := (ui s)\<lparr>promptInput := t\<rparr>\<rparr>"
| "step s ClickSend = (if sendDisabled (ui s) then s else submit s)"
| "step s EnterKey = submit s"
| "step s RequestDone =
     (if pending s = 0 then s
      else s\<lparr>ui := on_message EndStream (ui s), pending := pending s - 1\<rparr>)"

definition initial_session :: session_state where
  "initial_session = \<lparr>ui = \<lparr>promptInput = [], sendDisabled = False\<rparr>, pending = 0\<rparr>"

definition run :: "ui_event list \<Rightarrow> session_state" where
  "run evs = foldl step initial_session evs"

section \<open>Responses made of fenced blocks\<close>

text \<open>
  The marker syntax as the pattern takes it: a fence, a language tag of word characters
  (letters, digits, underscore; it may be empty), white space (it may be empty), a line
  feed, the marker \<^verbatim>\<open>// FILE: \<close> with the path up to the next line feed, the body, and
  a line feed with the closing fence. A block carries the text that stands before its
  fence. A response is a sequence of blocks followed by a last piece of text.
\<close>

record block =
  blk_prose :: jsstring
  blk_lang :: jsstring
  blk_pad :: jsstring
  blk_arg :: jsstring
  blk_body :: jsstring

definition fence :: jsstring where
  "fence = js ''```''"

definition marker :: jsstring where
  "marker = 10 # js ''// FILE: ''"

definition render_block :: "block \<Rightarrow> jsstring" where
  "render_block b =
     blk_prose b @ fence @ blk_lang b @ blk_pad b @ marker @ blk_arg b @ [10] @
     blk_body b @ [10] @ fence"

definition response :: "block list \<Rightarrow> jsstring \<Rightarrow> jsstring" where
  "response bs rest = concat (map render_block bs) @ rest"

text \<open>\<open>has_fence s\<close>: a line feed followed by a fence occurs in \<open>s\<close>.\<close>

fun has_fence :: "jsstring \<Rightarrow> bool" where
  "has_fence [] = False"
| "has_fence (c # s) = (prefix (10 # fence) (c # s) \<or> has_fence s)"

text \<open>
  The opening of a block is the first part of the pattern, up to the marker.
  \<open>after_opening s\<close> is the text after the opening with which \<open>s\<close> starts, if it starts
  with one. \<open>starts_head s\<close>: \<open>s\<close> starts with an opening whose marker line ends with a
  line feed or is cut off by the end of \<open>s\<close> (and not by another line terminator).
  \<open>starts_block s\<close>: \<open>s\<close> starts with an opening whose marker line ends with a line
  feed, and a line feed followed by a fence occurs after it. \<open>has_head\<close> and
  \<open>has_block\<close>: some place of the text does.
\<close>

definition block_opening :: "atom list" where
  "block_opening = [Lit (js ''```''), Greedy Word, Greedy Space, Lit [10], Lit (js ''// FILE: '')]"

definition after_opening :: "jsstring \<Rightarrow> jsstring option" where
  "after_opening s = map_option snd (rmatch block_opening s)"

definition starts_head :: "jsstring \<Rightarrow> bool" where
  "starts_head s =
     (case after_opening s of
        None \<Rightarrow> False
      | Some t \<Rightarrow> (case dropWhile is_dot t of [] \<Rightarrow> True | c # r \<Rightarrow> c = 10))"

definition starts_block :: "jsstring \<Rightarrow> bool" where
  "starts_block s =
     (case after_opening s of
        None \<Rightarrow> False
      | Some t \<Rightarrow> (case dropWhile is_dot t of [] \<Rightarrow> False | c # r \<Rightarrow> c = 10 \<and> has_fence r))"

fun has_head :: "jsstring \<Rightarrow> bool" where
  "has_head [] = False"
| "has_head (c # s) = (starts_head (c # s) \<or> has_head s)"

fun has_block :: "jsstring \<Rightarrow> bool" where
  "has_block [] = False"
| "has_block (c # s) = (starts_block (c # s) \<or> has_block s)"

text \<open>
  A block is well formed when the text before it has no head of a block, its language
  tag is made of word characters, white space alone stands between the tag and the line
  feed before the marker, the path has no line terminator, and the closing fence is the
  first fence at the start of a line after the marker line.
\<close>

definition well_formed :: "block \<Rightarrow> bool" where
  "well_formed b \<longleftrightarrow>
     \<not> has_head (blk_prose b) \<and> list_all is_word (blk_lang b) \<and>
     list_all is_space (blk_pad b) \<and> list_all is_dot (blk_arg b) \<and>
     \<not> has_fence (blk_body b)"

definition intent_of :: "block \<Rightarrow> jsstring \<times> jsstring" where
  "intent_of b = (trim (blk_arg b), trim (blk_body b))"





section \<open>Environments for examples\<close>

text \<open>
  The folder \<open>/ws\<close> and, on Windows, the folder \<open>proj\<close> in \<open>ws\<close> on drive \<open>c:\<close>; a file system with no
  files; file systems that never fail, on POSIX and on Windows; one that denies writing
  \<open>/ws/b.txt\<close>; one that denies overwriting a file that exists.
\<close>

definition ws_root :: uri where
  "ws_root = \<lparr>device = [], segs = [js ''ws''], trailing = False\<rparr>"

definition win_root :: uri where
  "win_root = \<lparr>device = js ''c:'', segs = [js ''ws'', js ''proj''], trailing = False\<rparr>"

definition empty_fs :: filesystem where
  "empty_fs = \<lparr>files = Map.empty, dirs = {}\<rparr>"

definition no_errors :: fs_env where
  "no_errors =
     \<lparr>windows_file = False, mkdir_error = (\<lambda>fs d. None), write_error = (\<lambda>fs p. None)\<rparr>"

definition windows_no_errors :: fs_env where
  "windows_no_errors =
     \<lparr>windows_file = True, mkdir_error = (\<lambda>fs d. None), write_error = (\<lambda>fs p. None)\<rparr>"

definition denied_env :: fs_env where
  "denied_env =
     \<lparr>windows_file = False, mkdir_error = (\<lambda>fs d. None),
      write_error = (\<lambda>fs p. if segs p = [js ''ws'', js ''b.txt''] then Some (js ''EACCES'')
                               else None)\<rparr>"

definition no_overwrite_env :: fs_env where
  "no_overwrite_env =
     \<lparr>windows_file = False, mkdir_error = (\<lambda>fs d. None),
      write_error = (\<lambda>fs p. if files fs p = None then None else Some (js ''EPERM''))\<rparr>"

text \<open>
  An environment of a request: the file system never fails, the session holds a token,
  the remote API answers every request with \<open>r\<close>, and the workspace folders are \<open>w\<close>.
\<close>

definition demo_env :: "fetch_result \<Rightarrow> uri list option \<Rightarrow> environment" where
  "demo_env r w =
     \<lparr>windows_file = False, mkdir_error = (\<lambda>fs d. None), write_error = (\<lambda>fs p. None),
      session = Some (js ''token''), fetch = (\<lambda>accessToken prompt. r),
      workspaceFolders = w, ARCHITECT_PROMPT = js ''A'', CODER_PROMPT = js ''C''\<rparr>"

section \<open>The request handler: events on every exit path\<close>

lemma posted_append: "posted (xs @ ys) = posted xs @ posted ys"
  by (induction xs rule: posted.induct) simp_all

lemma posted_map_Notify: "posted (map Notify ns) = []"
  by (induction ns) simp_all

lemma posted_processAndWriteFiles:
  "EndStream \<notin> set (posted (fst (snd (processAndWriteFiles env w t fs))))"
  by (simp add: processAndWriteFiles_def Let_def posted_append posted_map_Notify
      split: option.splits list.splits)

lemma posted_getAccessToken: "posted (fst (getAccessToken env)) = []"
  by (simp add: getAccessToken_def split: option.splits)

lemma try_block_no_EndStream:
  "EndStream \<notin> set (posted (fst (snd (try_block env fs userPrompt agent))))"
proof -
  obtain effs r where g: "getAccessToken env = (effs, r)" by (cases "getAccessToken env")
  with posted_getAccessToken [of env] have e: "posted effs = []" by simp
  show ?thesis
    using e
    by (simp add: try_block_def g Let_def posted_append case_prod_beta
        posted_processAndWriteFiles
        split: sum.splits fetch_result.splits response_body.splits)
qed

text \<open>
  C4. Whatever the outcome of a request (the session cannot be obtained, the network
  fails, the API answers with an error status or with a body that cannot be read,
  \<open>processAndWriteFiles\<close> throws, or the request succeeds), the handler posts
  \<open>endStream\<close> exactly once, and it is the last thing the handler does.
\<close>

theorem finished_exactly_once:
  "length (filter (\<lambda>m. m = EndStream)
     (posted (snd (handleCopilotRequest env fs userPrompt agent)))) = 1
   \<and> last (snd (handleCopilotRequest env fs userPrompt agent)) = Post EndStream"
proof -
  obtain fs' effs r where t: "try_block env fs userPrompt agent = (fs', effs, r)"
    by (cases "try_block env fs userPrompt agent")
  from try_block_no_EndStream [of env fs userPrompt agent] t
  have "EndStream \<notin> set (posted effs)" by simp
  then have "filter (\<lambda>m. m = EndStream) (posted effs) = []"
    by (auto simp: filter_empty_conv)
  then show ?thesis
    by (cases r) (simp_all add: handleCopilotRequest_def t Let_def posted_append)
qed

theorem finished_exactly_once_witness:
  "length (filter (\<lambda>m. m = EndStream)
     (posted (snd (handleCopilotRequest
        (demo_env (Response 200 (JsonBody (JStr (js ''done'')) JUndefined)) (Some []))
        empty_fs (js ''hi'') (js ''coder''))))) = 1
   \<and> last (snd (handleCopilotRequest
        (demo_env (Response 200 (JsonBody (JStr (js ''done'')) JUndefined)) (Some []))
        empty_fs (js ''hi'') (js ''coder''))) = Post EndStream
   \<and> posted (snd (handleCopilotRequest
        (demo_env (Response 200 (JsonBody (JStr (js ''done'')) JUndefined)) (Some []))
        empty_fs (js ''hi'') (js ''coder''))) =
       [StreamResponse (JStr (js ''done'')),
        ShowError (js ''Erro ao se comunicar com o M365 Copilot: Cannot read properties of undefined (reading 'uri')''),
        EndStream]"
  using finished_exactly_once
    [of "demo_env (Response 200 (JsonBody (JStr (js ''done'')) JUndefined)) (Some [])"
        empty_fs "js ''hi''" "js ''coder''"]
  by (simp add: demo_env_def ok_def js_def handleCopilotRequest_def try_block_def
      getAccessToken_def processAndWriteFiles_def Let_def)

text \<open>
  C5. When the remote call fails (the network fails or the status is not in 200..299),
  the handler shows and posts one error message and then posts \<open>endStream\<close>: no
  \<open>streamResponse\<close> is posted, no file operation is attempted and the file system is
  unchanged.
\<close>

theorem remote_failure_no_writes:
  assumes "session env = Some tok"
    and "case fetch env tok ((if agent = js ''architect'' then ARCHITECT_PROMPT env
                              else CODER_PROMPT env) @ [10, 10] @ userPrompt) of
           NetworkError e \<Rightarrow> True
         | Response status body \<Rightarrow> \<not> ok status"
  shows "\<exists>msg. handleCopilotRequest env fs userPrompt agent =
           (fs, [Notify (RequestError msg), Post (ShowError msg), Post EndStream])"
proof -
  define p where
    "p = (if agent = js ''architect'' then ARCHITECT_PROMPT env else CODER_PROMPT env) @
         [10, 10] @ userPrompt"
  have "\<exists>err. try_block env fs userPrompt agent = (fs, [], Some err)"
  proof (cases "fetch env tok p")
    case (NetworkError e)
    then show ?thesis
      using assms(1) by (simp add: try_block_def getAccessToken_def Let_def p_def)
  next
    case (Response status body)
    with assms(2) have "\<not> ok status" by (simp add: p_def)
    with Response show ?thesis
      using assms(1)
      by (cases body) (simp_all add: try_block_def getAccessToken_def Let_def p_def)
  qed
  then obtain err where "try_block env fs userPrompt agent = (fs, [], Some err)" ..
  then show ?thesis by (simp add: handleCopilotRequest_def Let_def)
qed

theorem remote_failure_no_writes_witness:
  "handleCopilotRequest
     (demo_env (Response 401 (JsonBody JUndefined (JStr (js ''Unauthorized'')))) (Some [ws_root]))
     empty_fs (js ''hi'') (js ''coder'') =
   (empty_fs,
    [Notify (RequestError (js ''Erro ao se comunicar com o M365 Copilot: API Error 401: Unauthorized'')),
     Post (ShowError (js ''Erro ao se comunicar com o M365 Copilot: API Error 401: Unauthorized'')),
     Post EndStream])"
proof -
  let ?env = "demo_env (Response 401 (JsonBody JUndefined (JStr (js ''Unauthorized''))))
                (Some [ws_root])"
  have h1: "session ?env = Some (js ''token'')"
    by (simp add: demo_env_def)
  have h2: "case fetch ?env (js ''token'')
                   ((if js ''coder'' = js ''architect'' then ARCHITECT_PROMPT ?env
                     else CODER_PROMPT ?env) @ [10, 10] @ js ''hi'') of
              NetworkError e \<Rightarrow> True
            | Response status body \<Rightarrow> \<not> ok status"
    by (simp add: demo_env_def ok_def)
  from remote_failure_no_writes [OF h1 h2, of empty_fs] show ?thesis
    by (simp add: demo_env_def ok_def js_def handleCopilotRequest_def try_block_def
        getAccessToken_def digits.simps Let_def)
qed

section \<open>The scan of the response\<close>




lemma exec_loop_None: "exec t = None \<Longrightarrow> exec_loop f t st = st"
  by (simp add: exec_loop.simps)

lemma exec_loop_Some:
  "exec t = Some ([m1, m2], rest) \<Longrightarrow> exec_loop f t st = exec_loop f rest (f (trim m1) (trim m2) st)"
  by (simp add: exec_loop.simps)





section \<open>Submissions while a request is pending\<close>

text \<open>
  As long as the user only clicks the send button, at most one request is pending: the
  button is disabled from the submission to \<open>endStream\<close>.
\<close>

lemma click_only_step:
  assumes "pending s \<le> 1" and "pending s = 1 \<longrightarrow> sendDisabled (ui s)" and "e \<noteq> EnterKey"
  shows "pending (step s e) \<le> 1 \<and> (pending (step s e) = 1 \<longrightarrow> sendDisabled (ui (step s e)))"
  using assms by (cases e) (auto simp: submit_def sendMessage_def)

lemma click_only_run:
  assumes "pending s \<le> 1" and "pending s = 1 \<longrightarrow> sendDisabled (ui s)" and "EnterKey \<notin> set evs"
  shows "pending (foldl step s evs) \<le> 1"
  using assms
proof (induction evs arbitrary: s)
  case Nil
  then show ?case by simp
next
  case (Cons e evs)
  from Cons.prems have "e \<noteq> EnterKey" by auto
  from click_only_step [OF Cons.prems(1,2) this] Cons.prems(3) Cons.IH [of "step s e"]
  show ?case by simp
qed

lemma click_only_at_most_one: "EnterKey \<notin> set evs \<Longrightarrow> pending (run evs) \<le> 1"
  unfolding run_def by (rule click_only_run) (simp_all add: initial_session_def)

text \<open>
  C3. The Enter key calls \<open>sendMessage\<close> without looking at the disabled button, and the
  extension starts a request for every message: after a submission with Enter one request
  is pending and the button is disabled, and after a second submission with Enter, with
  no \<open>endStream\<close> in between, two requests are pending.
\<close>

theorem enter_key_second_call:
  "pending (run [Typed (js ''a''), EnterKey]) = 1 \<and>
   sendDisabled (ui (run [Typed (js ''a''), EnterKey])) \<and>
   pending (run [Typed (js ''a''), EnterKey, Typed (js ''b''), EnterKey]) = 2"
  by (simp add: run_def initial_session_def submit_def sendMessage_def trim_def is_space_def js_def)

text \<open>The loop as a fold over the intents of the response.\<close>

lemma exec_loop_acc:
  "exec_loop (\<lambda>p c acc. acc @ [(p, c)]) t acc = acc @ extract_intents t"
proof (induction t arbitrary: acc rule: length_induct)
  case (1 t)
  let ?g = "\<lambda>(p::jsstring) (c::jsstring) acc. acc @ [(p, c)]"
  show ?case
  proof (cases "exec t")
    case None
    then show ?thesis by (simp add: extract_intents_def exec_loop_None)
  next
    case (Some m)
    obtain caps rest where m: "m = (caps, rest)" by (cases m)
    from Some m have sh: "length rest < length t" using exec_shorter by blast
    show ?thesis
    proof (cases "\<exists>m1 m2. caps = [m1, m2]")
      case True
      then obtain m1 m2 where c: "caps = [m1, m2]" by blast
      from Some m c have e: "exec t = Some ([m1, m2], rest)" by simp
      have "exec_loop ?g t acc = exec_loop ?g rest (acc @ [(trim m1, trim m2)])"
        by (simp add: exec_loop_Some [OF e])
      also have "\<dots> = (acc @ [(trim m1, trim m2)]) @ extract_intents rest"
        using "1.IH" sh by blast
      also have "extract_intents t = exec_loop ?g rest [(trim m1, trim m2)]"
        by (simp add: extract_intents_def exec_loop_Some [OF e])
      then have "extract_intents t = [(trim m1, trim m2)] @ extract_intents rest"
        using "1.IH" sh by metis
      then have "(acc @ [(trim m1, trim m2)]) @ extract_intents rest = acc @ extract_intents t"
        by simp
      finally show ?thesis .
    next
      case False
      with Some m show ?thesis
        by (simp add: extract_intents_def exec_loop.simps split: list.splits)
    qed
  qed
qed

lemma extract_intents_None: "exec t = None \<Longrightarrow> extract_intents t = []"
  by (simp add: extract_intents_def exec_loop_None)

lemma extract_intents_Some:
  assumes "exec t = Some ([m1, m2], rest)"
  shows "extract_intents t = (trim m1, trim m2) # extract_intents rest"
proof -
  have "extract_intents t = exec_loop (\<lambda>p c acc. acc @ [(p, c)]) rest [(trim m1, trim m2)]"
    by (simp add: extract_intents_def exec_loop_Some [OF assms])
  then show ?thesis by (simp add: exec_loop_acc)
qed

lemma exec_loop_fold:
  "exec_loop f t st = foldl (\<lambda>s i. f (fst i) (snd i) s) st (extract_intents t)"
proof (induction t arbitrary: st rule: length_induct)
  case (1 t)
  show ?case
  proof (cases "exec t")
    case None
    then show ?thesis by (simp add: extract_intents_None exec_loop_None)
  next
    case (Some m)
    obtain caps rest where m: "m = (caps, rest)" by (cases m)
    from Some m have sh: "length rest < length t" using exec_shorter by blast
    show ?thesis
    proof (cases "\<exists>m1 m2. caps = [m1, m2]")
      case True
      then obtain m1 m2 where c: "caps = [m1, m2]" by blast
      from Some m c have e: "exec t = Some ([m1, m2], rest)" by simp
      from "1.IH" sh
      have "exec_loop f rest (f (trim m1) (trim m2) st) =
            foldl (\<lambda>s i. f (fst i) (snd i) s) (f (trim m1) (trim m2) st) (extract_intents rest)"
        by blast
      then show ?thesis
        by (simp add: exec_loop_Some [OF e] extract_intents_Some [OF e])
    next
      case False
      with Some m show ?thesis
        by (simp add: extract_intents_def exec_loop.simps split: list.splits)
    qed
  qed
qed

lemma extract_intents_Nil: "extract_intents [] = []"
  by (simp add: extract_intents_None rmatch_empty)

section \<open>How the pattern matches\<close>

text \<open>
  What a successful match of a pattern that starts with a literal, a greedy star or a
  lazy star says about the text.
\<close>

lemma rmatch_Lit_inv:
  assumes "rmatch (Lit l # r) s = Some x"
  obtains s' where "s = l @ s'" and "rmatch r s' = Some x"
proof -
  from assms have p: "prefix l s" and m: "rmatch r (drop (length l) s) = Some x"
    by (simp_all split: if_splits)
  from p have "s = l @ drop (length l) s" by (auto simp: prefix_def)
  with m that show ?thesis by blast
qed

lemma rmatch_Greedy_inv:
  "rmatch (Greedy k # r) s = Some x \<Longrightarrow>
   \<exists>xs s'. s = xs @ s' \<and> list_all (in_class k) xs \<and> rmatch r s' = Some x"
proof (induction s)
  case Nil
  then have "[] = [] @ [] \<and> list_all (in_class k) [] \<and> rmatch r [] = Some x" by simp
  then show ?case by (intro exI)
next
  case (Cons c s)
  have stop: ?case if "rmatch r (c # s) = Some x"
  proof -
    from that have "c # s = [] @ c # s \<and> list_all (in_class k) [] \<and> rmatch r (c # s) = Some x"
      by simp
    then show ?thesis by (intro exI)
  qed
  show ?case
  proof (cases "in_class k c")
    case False
    with Cons.prems have "rmatch r (c # s) = Some x" by simp
    then show ?thesis by (rule stop)
  next
    case True
    show ?thesis
    proof (cases "rmatch (Greedy k # r) s")
      case None
      with True Cons.prems have "rmatch r (c # s) = Some x" by simp
      then show ?thesis by (rule stop)
    next
      case (Some y)
      with True Cons.prems have "rmatch (Greedy k # r) s = Some x" by simp
      from Cons.IH [OF this] obtain xs s' where
        "s = xs @ s'" "list_all (in_class k) xs" "rmatch r s' = Some x" by blast
      with True have "c # s = (c # xs) @ s' \<and> list_all (in_class k) (c # xs) \<and>
                      rmatch r s' = Some x"
        by simp
      then show ?thesis by (intro exI)
    qed
  qed
qed

lemma rmatch_LazyCap_inv:
  "rmatch (LazyCap k # r) s = Some (caps, rest) \<Longrightarrow>
   \<exists>xs s' caps'. s = xs @ s' \<and> list_all (in_class k) xs \<and> caps = xs # caps' \<and>
     rmatch r s' = Some (caps', rest)"
proof (induction s arbitrary: caps)
  case Nil
  then obtain caps' where "rmatch r [] = Some (caps', rest)" "caps = [] # caps'"
    by (cases "rmatch r []") auto
  then have "[] = [] @ [] \<and> list_all (in_class k) [] \<and> caps = [] # caps' \<and>
             rmatch r [] = Some (caps', rest)" by simp
  then show ?case by (intro exI)
next
  case (Cons c s)
  show ?case
  proof (cases "rmatch r (c # s)")
    case (Some m)
    with Cons.prems obtain caps' where "rmatch r (c # s) = Some (caps', rest)" "caps = [] # caps'"
      by (cases m) auto
    then have "c # s = [] @ c # s \<and> list_all (in_class k) [] \<and> caps = [] # caps' \<and>
               rmatch r (c # s) = Some (caps', rest)" by simp
    then show ?thesis by (intro exI)
  next
    case None
    with Cons.prems have k: "in_class k c" by (simp split: if_splits)
    from None k Cons.prems have
      e: "(case rmatch (LazyCap k # r) s of
            Some (cap # caps0, rest') \<Rightarrow> Some ((c # cap) # caps0, rest')
          | _ \<Rightarrow> None) = Some (caps, rest)"
      by simp
    then obtain cap caps0 where
      m: "rmatch (LazyCap k # r) s = Some (cap # caps0, rest)" and c: "caps = (c # cap) # caps0"
      by (cases "rmatch (LazyCap k # r) s"; cases "fst (the (rmatch (LazyCap k # r) s))")
        (auto split: prod.splits)
    from Cons.IH [OF m] obtain xs s' caps' where
      "s = xs @ s'" "list_all (in_class k) xs" "cap # caps0 = xs # caps'"
      "rmatch r s' = Some (caps', rest)" by blast
    with k c have "c # s = (c # xs) @ s' \<and> list_all (in_class k) (c # xs) \<and>
                   caps = (c # xs) # caps' \<and> rmatch r s' = Some (caps', rest)" by simp
    then show ?thesis by (intro exI)
  qed
qed

text \<open>
  The text of a match: a fence, word characters, white space, the marker, the path, a
  line feed, the content, and a line feed with a fence.
\<close>

lemma rmatch_shape:
  assumes "rmatch codeBlockRegex s = Some (caps, rest)"
  obtains w sp p c where
    "s = fence @ w @ sp @ marker @ p @ [10] @ c @ (10 # fence) @ rest"
    "list_all is_word w" "list_all is_space sp" "list_all is_dot p" "caps = [p, c]"
proof -
  from assms obtain s1 where s1: "s = fence @ s1"
    and m1: "rmatch [Greedy Word, Greedy Space, Lit [10], Lit (js ''// FILE: ''), LazyCap Dot,
                     Lit [10], LazyCap Any, Lit (10 # fence)] s1 = Some (caps, rest)"
    unfolding codeBlockRegex_def fence_def by (rule rmatch_Lit_inv)
  from rmatch_Greedy_inv [OF m1] obtain w s2 where s2: "s1 = w @ s2"
    and w: "list_all is_word w"
    and m2: "rmatch [Greedy Space, Lit [10], Lit (js ''// FILE: ''), LazyCap Dot,
                     Lit [10], LazyCap Any, Lit (10 # fence)] s2 = Some (caps, rest)"
    by (auto simp: list_all_iff)
  from rmatch_Greedy_inv [OF m2] obtain sp s3 where s3: "s2 = sp @ s3"
    and sp: "list_all is_space sp"
    and m3: "rmatch [Lit [10], Lit (js ''// FILE: ''), LazyCap Dot,
                     Lit [10], LazyCap Any, Lit (10 # fence)] s3 = Some (caps, rest)"
    by (auto simp: list_all_iff)
  from m3 obtain s4 where s4: "s3 = [10] @ s4"
    and m4: "rmatch [Lit (js ''// FILE: ''), LazyCap Dot,
                     Lit [10], LazyCap Any, Lit (10 # fence)] s4 = Some (caps, rest)"
    by (rule rmatch_Lit_inv)
  from m4 obtain s5 where s5: "s4 = js ''// FILE: '' @ s5"
    and m5: "rmatch [LazyCap Dot, Lit [10], LazyCap Any, Lit (10 # fence)] s5 = Some (caps, rest)"
    by (rule rmatch_Lit_inv)
  from rmatch_LazyCap_inv [OF m5] obtain p s6 caps6 where s6: "s5 = p @ s6"
    and p: "list_all is_dot p" and c6: "caps = p # caps6"
    and m6: "rmatch [Lit [10], LazyCap Any, Lit (10 # fence)] s6 = Some (caps6, rest)"
    by (auto simp: list_all_iff)
  from m6 obtain s7 where s7: "s6 = [10] @ s7"
    and m7: "rmatch [LazyCap Any, Lit (10 # fence)] s7 = Some (caps6, rest)"
    by (rule rmatch_Lit_inv)
  from rmatch_LazyCap_inv [OF m7] obtain c s8 caps8 where s8: "s7 = c @ s8"
    and c8: "caps6 = c # caps8"
    and m8: "rmatch [Lit (10 # fence)] s8 = Some (caps8, rest)"
    by blast
  from m8 obtain s9 where s9: "s8 = (10 # fence) @ s9" and m9: "rmatch [] s9 = Some (caps8, rest)"
    by (rule rmatch_Lit_inv)
  from m9 have e: "caps8 = []" "s9 = rest" by simp_all
  have e1: "s = fence @ w @ sp @ marker @ p @ [10] @ c @ (10 # fence) @ rest"
    by (simp add: s1 s2 s3 s4 s5 s6 s7 s8 s9 e marker_def)
  have e2: "caps = [p, c]" by (simp add: c6 c8 e)
  from e1 w sp p e2 show ?thesis by (rule that)
qed

text \<open>
  How the matcher runs over a block: a greedy star over a run of its class, a greedy star
  that gives one character back, a lazy star up to the first place where the rest of the
  pattern matches.
\<close>

lemma rmatch_greedy_run:
  assumes "list_all (in_class k) xs" and "\<not> in_class k c" and "rmatch r (c # s) = Some m"
  shows "rmatch (Greedy k # r) (xs @ c # s) = Some m"
  using assms by (induction xs) simp_all

lemma rmatch_greedy_back:
  assumes "list_all (in_class k) xs" and "in_class k x" and "\<not> in_class k c"
    and "rmatch r (c # s) = None" and "rmatch r (x # c # s) = Some m"
  shows "rmatch (Greedy k # r) (xs @ x # c # s) = Some m"
  using assms by (induction xs) simp_all

lemma rmatch_lazy_run:
  assumes "list_all (in_class k) xs"
    and "\<And>v. v \<noteq> [] \<Longrightarrow> suffix v xs \<Longrightarrow> rmatch r (v @ s) = None"
    and "rmatch r s = Some (caps, rest)"
  shows "rmatch (LazyCap k # r) (xs @ s) = Some (xs # caps, rest)"
  using assms
proof (induction xs)
  case Nil
  then show ?case by (cases s) simp_all
next
  case (Cons x xs)
  have "rmatch r ((x # xs) @ s) = None"
    by (rule Cons.prems(2)) simp_all
  moreover have "rmatch (LazyCap k # r) (xs @ s) = Some (xs # caps, rest)"
  proof (rule Cons.IH)
    show "list_all (in_class k) xs" using Cons.prems(1) by simp
    show "rmatch r (v @ s) = None" if "v \<noteq> []" "suffix v xs" for v
      using that by (intro Cons.prems(2)) (simp_all add: suffix_Cons)
    show "rmatch r s = Some (caps, rest)" by (rule Cons.prems(3))
  qed
  ultimately show ?case using Cons.prems(1) by simp
qed

lemma has_fence_suffix: "suffix v s \<Longrightarrow> has_fence v \<Longrightarrow> has_fence s"
proof (induction s)
  case Nil
  then show ?case by simp
next
  case (Cons c s)
  then show ?case by (auto simp: suffix_Cons)
qed

lemma prefix_fence_straddle:
  assumes "v \<noteq> []" and "prefix (10 # fence) (v @ 10 # fence @ rest)"
  shows "prefix (10 # fence) v"
proof -
  have f: "fence = [96, 96, 96]" by (simp add: fence_def js_def)
  show ?thesis
  proof (cases v)
    case Nil
    with assms show ?thesis by simp
  next
    case v1: (Cons a v1)
    show ?thesis
    proof (cases v1)
      case Nil
      with assms v1 show ?thesis by (simp add: f)
    next
      case v2: (Cons b v2)
      show ?thesis
      proof (cases v2)
        case Nil
        with assms v1 v2 show ?thesis by (simp add: f)
      next
        case v3: (Cons c v3)
        show ?thesis
        proof (cases v3)
          case Nil
          with assms v1 v2 v3 show ?thesis by (simp add: f)
        next
          case (Cons d v4)
          with assms v1 v2 v3 show ?thesis by (simp add: f)
        qed
      qed
    qed
  qed
qed

lemma no_fence_no_close:
  assumes "\<not> has_fence body" and "v \<noteq> []" and "suffix v body"
  shows "rmatch [Lit (10 # fence)] (v @ 10 # fence @ rest) = None"
proof -
  from assms(1,3) have "\<not> has_fence v" using has_fence_suffix by blast
  with assms(2) have "\<not> prefix (10 # fence) v" by (cases v) simp_all
  with prefix_fence_straddle [OF assms(2)] have "\<not> prefix (10 # fence) (v @ 10 # fence @ rest)"
    by blast
  then show ?thesis by simp
qed

lemma has_fence_append: "has_fence (u @ (10 # fence) @ rest)"
  by (induction u) (simp_all add: fence_def js_def)

lemma prefix_before_other:
  assumes "prefix l (v @ c # t)" and "c \<notin> set l"
  shows "prefix l v"
proof (rule ccontr)
  assume n: "\<not> prefix l v"
  with assms(1) obtain us where l: "l = v @ us" and p: "prefix us (c # t)"
    by (auto simp: prefix_append)
  from n l have "us \<noteq> []" by auto
  with p obtain us' where "us = c # us'" by (cases us) auto
  with l assms(2) show False by simp
qed

lemma trim_all_space:
  assumes "list_all is_space s"
  shows "trim s = []"
proof -
  from assms have d: "dropWhile is_space s = []"
    by (induction s) simp_all
  show ?thesis unfolding trim_def d by simp
qed

lemma all_space_no_fence: "list_all is_space s \<Longrightarrow> \<not> has_fence s"
proof (induction s)
  case Nil
  then show ?case by simp
next
  case (Cons c s)
  from Cons.prems have "list_all is_space s" by simp
  then have "\<not> prefix fence s" by (cases s) (auto simp: fence_def js_def is_space_def)
  with Cons show ?case by simp
qed

lemma space_not_word: "is_space c \<Longrightarrow> \<not> is_word c"
  by (auto simp: is_space_def is_word_def)

text \<open>The opening of the pattern matches a text of its shape, up to the marker.\<close>

lemma rmatch_opening_then:
  assumes "list_all is_word w" and "list_all is_space sp" and "rmatch r t = Some m"
  shows "rmatch (Lit (js ''```'') # Greedy Word # Greedy Space # Lit [10] #
                 Lit (js ''// FILE: '') # r) (fence @ w @ sp @ marker @ t) = Some m"
proof -
  let ?r2 = "Lit [10] # Lit (js ''// FILE: '') # r"
  let ?t = "js ''/ FILE: '' @ t"
  have mk: "marker @ t = 10 # 47 # ?t" by (simp add: marker_def js_def)
  have n: "rmatch ?r2 (47 # ?t) = None" by simp
  have y: "rmatch ?r2 (10 # 47 # ?t) = Some m"
    using assms(3) by (simp add: js_def)
  have sp: "rmatch (Greedy Space # ?r2) (sp @ 10 # 47 # ?t) = Some m"
    using assms(2) n y
    by (intro rmatch_greedy_back) (simp_all add: is_space_def list_all_iff)
  obtain a u where u: "sp @ 10 # 47 # ?t = a # u" and a: "is_space a"
    using assms(2) by (cases sp) (simp_all add: is_space_def)
  have "rmatch (Greedy Word # Greedy Space # ?r2) (w @ a # u) = Some m"
  proof (rule rmatch_greedy_run)
    show "list_all (in_class Word) w" using assms(1) by (simp add: list_all_iff)
    show "\<not> in_class Word a" using a by (simp add: space_not_word)
    show "rmatch (Greedy Space # ?r2) (a # u) = Some m" using sp u by simp
  qed
  then have "rmatch (Greedy Word # Greedy Space # ?r2) (w @ sp @ 10 # 47 # ?t) = Some m"
    using u by simp
  then show ?thesis by (simp add: fence_def mk)
qed

lemma after_opening_shape:
  assumes "list_all is_word w" and "list_all is_space sp"
  shows "after_opening (fence @ w @ sp @ marker @ t) = Some t"
proof -
  have "rmatch [] t = Some ([], t)" by simp
  from rmatch_opening_then [OF assms this]
  show ?thesis by (simp add: after_opening_def block_opening_def)
qed

lemma rmatch_block:
  assumes "list_all is_word w" and "list_all is_space sp" and "list_all is_dot arg"
    and "\<not> has_fence body"
  shows "rmatch codeBlockRegex
           (fence @ w @ sp @ marker @ arg @ [10] @ body @ [10] @ fence @ rest) =
         Some ([arg, body], rest)"
proof -
  let ?close = "[Lit (10 # fence)]"
  have l4: "rmatch ?close (10 # fence @ rest) = Some ([], rest)"
    by simp
  have l3: "rmatch (LazyCap Any # ?close) (body @ 10 # fence @ rest) = Some ([body], rest)"
  proof (rule rmatch_lazy_run)
    show "list_all (in_class Any) body" by (simp add: list_all_iff)
    show "rmatch ?close (v @ 10 # fence @ rest) = None" if "v \<noteq> []" "suffix v body" for v
      using assms(4) that by (rule no_fence_no_close)
    show "rmatch ?close (10 # fence @ rest) = Some ([], rest)" by (rule l4)
  qed
  let ?r2 = "Lit [10] # LazyCap Any # ?close"
  have l2: "rmatch ?r2 (10 # body @ 10 # fence @ rest) = Some ([body], rest)"
    using l3 by simp
  have l1: "rmatch (LazyCap Dot # ?r2) (arg @ 10 # body @ 10 # fence @ rest) =
              Some ([arg, body], rest)"
  proof (rule rmatch_lazy_run)
    show "list_all (in_class Dot) arg" using assms(3) by (simp add: list_all_iff)
    show "rmatch ?r2 (v @ 10 # body @ 10 # fence @ rest) = None"
      if "v \<noteq> []" "suffix v arg" for v
    proof -
      from that(2) assms(3) have "list_all is_dot v"
        by (auto simp: list_all_iff suffix_def)
      with that(1) show ?thesis by (cases v) (simp_all add: is_dot_def)
    qed
    show "rmatch ?r2 (10 # body @ 10 # fence @ rest) = Some ([body], rest)" by (rule l2)
  qed
  from rmatch_opening_then [OF assms(1,2) l1]
  show ?thesis by (simp add: codeBlockRegex_def fence_def)
qed

section \<open>Where a match can start\<close>

lemma has_head_suffix: "suffix v s \<Longrightarrow> has_head v \<Longrightarrow> has_head s"
proof (induction s)
  case Nil
  then show ?case by simp
next
  case (Cons c s)
  then show ?case by (auto simp: suffix_Cons)
qed

lemma starts_head_has: "starts_head v \<Longrightarrow> has_head v"
  by (cases v) (simp_all add: starts_head_def after_opening_def block_opening_def js_def)

lemma starts_block_has: "starts_block v \<Longrightarrow> has_block v"
  by (cases v) (simp_all add: starts_block_def after_opening_def block_opening_def js_def)

lemma dropWhile_run: "list_all P p \<Longrightarrow> \<not> P x \<Longrightarrow> dropWhile P (p @ x # z) = x # z"
  by (induction p) simp_all

lemma dropWhile_all: "list_all P p \<Longrightarrow> dropWhile P p = []"
  by (induction p) simp_all

text \<open>
  A text that, followed by something, reads as a path and a line feed is a run of path
  characters that ends with a line feed or with the text.
\<close>

lemma marker_line_cut:
  assumes "list_all is_dot p" and "t @ a = p @ 10 # b"
  shows "case dropWhile is_dot t of [] \<Rightarrow> True | ch # r \<Rightarrow> ch = 10"
proof -
  from assms(2) consider us where "t = p @ us" "us @ a = 10 # b"
    | us where "t @ us = p"
    by (auto simp: append_eq_append_conv2)
  then show ?thesis
  proof cases
    case 1
    show ?thesis
    proof (cases us)
      case Nil
      with 1 assms(1) show ?thesis by (simp add: dropWhile_all)
    next
      case (Cons u us')
      with 1 have "u = 10" by simp
      with 1 Cons assms(1) have "dropWhile is_dot t = 10 # us'"
        by (simp add: dropWhile_run is_dot_def)
      then show ?thesis by simp
    qed
  next
    case 2
    with assms(1) have "list_all is_dot t" by auto
    then show ?thesis by (simp add: dropWhile_all)
  qed
qed

lemma opening_no_backquote:
  assumes "list_all is_word w" and "list_all is_space sp"
  shows "96 \<notin> set (w @ sp @ marker)"
  using assms by (auto simp: list_all_iff is_word_def is_space_def marker_def js_def)

text \<open>
  No match starts in a text without the head of a block that stands before a fence: the
  opening of a match cannot reach over the backquotes of the fence.
\<close>

lemma rmatch_in_junk:
  assumes "\<not> has_head j" and "suffix v j" and "v \<noteq> []"
  shows "rmatch codeBlockRegex (v @ fence @ x) = None"
proof (rule ccontr)
  assume "rmatch codeBlockRegex (v @ fence @ x) \<noteq> None"
  then obtain caps rest where "rmatch codeBlockRegex (v @ fence @ x) = Some (caps, rest)"
    by (cases "rmatch codeBlockRegex (v @ fence @ x)") auto
  then obtain w sp p c where
    e: "v @ fence @ x = fence @ w @ sp @ marker @ p @ [10] @ c @ (10 # fence) @ rest"
    and w: "list_all is_word w" and sp: "list_all is_space sp" and p: "list_all is_dot p"
    by (rule rmatch_shape)
  let ?l = "w @ sp @ marker"
  let ?b = "p @ [10] @ c @ (10 # fence) @ rest"
  have f: "fence = [96, 96, 96]" by (simp add: fence_def js_def)
  have nb: "96 \<notin> set ?l" using w sp by (rule opening_no_backquote)
  have l: "?l \<noteq> []" by (simp add: marker_def)
  from e have d: "drop 3 (v @ fence @ x) = ?l @ ?b" by (simp add: f)
  have long: "3 \<le> length v"
  proof (rule ccontr)
    assume "\<not> 3 \<le> length v"
    with assms(3) obtain y where "drop 3 (v @ fence @ x) = [] @ 96 # y"
      by (cases v; cases "tl v"; cases "tl (tl v)") (auto simp: f)
    with d have "prefix ?l ([] @ 96 # y)" by (metis prefixI)
    from prefix_before_other [OF this nb] l show False by simp
  qed
  then have "drop 3 (v @ fence @ x) = drop 3 v @ 96 # (96 # 96 # x)" by (simp add: f)
  with d have "prefix ?l (drop 3 v @ 96 # (96 # 96 # x))" by (metis prefixI)
  from prefix_before_other [OF this nb] obtain t where t: "drop 3 v = ?l @ t"
    by (auto simp: prefix_def)
  have "take 3 (v @ fence @ x) = take 3 v" using long by simp
  moreover have "take 3 (fence @ ?l @ ?b) = fence" by (simp add: f)
  ultimately have "take 3 v = fence" using e by simp
  with t have v: "v = fence @ w @ sp @ marker @ t"
    by (metis append_take_drop_id append.assoc)
  from e v have "t @ fence @ x = p @ 10 # (c @ (10 # fence) @ rest)" by simp
  with p have "case dropWhile is_dot t of [] \<Rightarrow> True | ch # r \<Rightarrow> ch = 10"
    by (rule marker_line_cut)
  moreover have "after_opening v = Some t"
    unfolding v using w sp by (rule after_opening_shape)
  ultimately have "starts_head v" by (simp add: starts_head_def)
  then have "has_head v" by (rule starts_head_has)
  with assms(2) have "has_head j" by (rule has_head_suffix)
  with assms(1) show False by simp
qed

lemma exec_skip_junk:
  assumes "\<not> has_head j"
  shows "exec (j @ fence @ t) = exec (fence @ t)"
proof -
  have "exec (v @ fence @ t) = exec (fence @ t)" if "suffix v j" for v
    using that
  proof (induction v)
    case Nil
    then show ?case by simp
  next
    case (Cons x v)
    from Cons.prems have "suffix v j" by (rule suffix_ConsD)
    then have "exec (v @ fence @ t) = exec (fence @ t)" by (rule Cons.IH)
    moreover have "rmatch codeBlockRegex ((x # v) @ fence @ t) = None"
      using assms Cons.prems by (rule rmatch_in_junk) simp
    ultimately show ?case by simp
  qed
  then show ?thesis by blast
qed

text \<open>A match starts only where a closed block starts.\<close>

lemma rmatch_starts_block:
  assumes "rmatch codeBlockRegex v = Some m"
  shows "starts_block v"
proof -
  obtain caps rest where "m = (caps, rest)" by (cases m)
  with assms have "rmatch codeBlockRegex v = Some (caps, rest)" by simp
  then obtain w sp p c where
    e: "v = fence @ w @ sp @ marker @ p @ [10] @ c @ (10 # fence) @ rest"
    and w: "list_all is_word w" and sp: "list_all is_space sp" and p: "list_all is_dot p"
    by (rule rmatch_shape)
  have a: "after_opening v = Some (p @ 10 # (c @ (10 # fence) @ rest))"
    unfolding e using after_opening_shape [OF w sp] by simp
  have "dropWhile is_dot (p @ 10 # (c @ (10 # fence) @ rest)) = 10 # (c @ (10 # fence) @ rest)"
    using p by (rule dropWhile_run) (simp add: is_dot_def)
  with a has_fence_append [of c rest] show ?thesis by (simp add: starts_block_def)
qed

lemma exec_has_block: "exec s = Some m \<Longrightarrow> has_block s"
proof (induction s)
  case Nil
  then show ?case by (simp add: rmatch_empty)
next
  case (Cons c s)
  show ?case
  proof (cases "rmatch codeBlockRegex (c # s)")
    case None
    with Cons show ?thesis by simp
  next
    case (Some m')
    then have "starts_block (c # s)" by (rule rmatch_starts_block)
    then show ?thesis by simp
  qed
qed

lemma exec_no_block: "\<not> has_block s \<Longrightarrow> exec s = None"
  using exec_has_block by (cases "exec s") auto

section \<open>The intents of a response\<close>

lemma exec_block:
  assumes "well_formed b"
  shows "exec (render_block b @ rest) = Some ([blk_arg b, blk_body b], rest)"
proof -
  let ?core = "blk_lang b @ blk_pad b @ marker @ blk_arg b @ [10] @ blk_body b @
               [10] @ fence @ rest"
  from assms have m: "rmatch codeBlockRegex (fence @ ?core) = Some ([blk_arg b, blk_body b], rest)"
    by (intro rmatch_block) (simp_all add: well_formed_def)
  have "exec (fence @ ?core) = Some ([blk_arg b, blk_body b], rest)"
    using m by (simp add: fence_def js_def)
  moreover have "exec (render_block b @ rest) = exec (fence @ ?core)"
    using assms exec_skip_junk [of "blk_prose b" ?core]
    by (simp add: render_block_def well_formed_def)
  ultimately show ?thesis by simp
qed

lemma extract_intents_blocks:
  assumes "\<forall>b\<in>set bs. well_formed b"
  shows "extract_intents (response bs rest) = map intent_of bs @ extract_intents rest"
  using assms
proof (induction bs)
  case Nil
  then show ?case by (simp add: response_def)
next
  case (Cons b bs)
  from Cons.prems have w: "well_formed b" by simp
  have "response (b # bs) rest = render_block b @ response bs rest"
    by (simp add: response_def)
  with exec_block [OF w, of "response bs rest"] Cons
  show ?case by (simp add: extract_intents_Some intent_of_def)
qed

lemma extract_intents_no_block: "\<not> has_block rest \<Longrightarrow> extract_intents rest = []"
  by (simp add: extract_intents_None exec_no_block)

lemmas eval_defs = js_def fence_def marker_def codeBlockRegex_def is_word_def is_space_def
  is_dot_def trim_def block_opening_def after_opening_def starts_head_def starts_block_def







text \<open>
  C7 (as amended). A block as in C2 whose marker line is followed by white space only,
  up to the line feed before the closing fence (one or more blank lines), gives an
  intent with empty content.
\<close>

theorem blank_body_empty_content:
  assumes "\<not> has_head (blk_prose b)" and "list_all is_word (blk_lang b)"
    and "list_all is_space (blk_pad b)" and "list_all is_dot (blk_arg b)"
    and "list_all is_space (blk_body b)"
  shows "extract_intents (render_block b @ rest) = (trim (blk_arg b), []) # extract_intents rest"
proof -
  from assms all_space_no_fence [OF assms(5)] have "well_formed b"
    by (simp add: well_formed_def)
  from exec_block [OF this, of rest] trim_all_space [OF assms(5)]
  show ?thesis by (simp add: extract_intents_Some)
qed

theorem blank_body_empty_content_witness:
  "extract_intents (js ''```js\<newline>// FILE: a.txt\<newline>\<newline>```'') = [(js ''a.txt'', [])]"
proof -
  let ?b = "\<lparr>blk_prose = [], blk_lang = js ''js'', blk_pad = [], blk_arg = js ''a.txt'',
             blk_body = []\<rparr>"
  have h1: "\<not> has_head (blk_prose ?b)" by simp
  have h2: "list_all is_word (blk_lang ?b)" by (simp add: eval_defs)
  have h3: "list_all is_space (blk_pad ?b)" by simp
  have h4: "list_all is_dot (blk_arg ?b)" by (simp add: eval_defs)
  have h5: "list_all is_space (blk_body ?b)" by simp
  from blank_body_empty_content [OF h1 h2 h3 h4 h5, of "[]"] show ?thesis
    by (simp add: render_block_def extract_intents_Nil eval_defs)
qed

text \<open>
  When the closing fence follows the marker line at once, the pattern, which needs a
  line feed after the path and another one before the closing fence, does not match:
  the block gives no intent. Nor does a block with a blank body whose language tag has
  a character that is not a word character (\<open>c#\<close>).
\<close>

theorem empty_body_counterexample:
  "extract_intents (js ''```js\<newline>// FILE: a.txt\<newline>```'') = [] \<and>
   extract_intents (js ''```c#\<newline>// FILE: a.cs\<newline>\<newline>```'') = []"
  by (simp add: extract_intents_def exec_loop.simps eval_defs)

section \<open>The writes of processAndWriteFiles\<close>

lemma write_files_fold:
  "write_files env rootPath t fs =
     foldl (\<lambda>s i. write_one env rootPath (fst i) (snd i) s)
       \<lparr>fsys = fs, filesWritten = 0, shown = []\<rparr> (extract_intents t)"
  by (simp add: write_files_def exec_loop_fold)

lemmas write_defs = processAndWriteFiles_def write_files_fold write_one_def createDirectory_def
  writeFile_def joinPath_def segments_def is_sep_def norm_step_def inside_def Let_def
  utf8_enc_def is_high_surrogate_def is_low_surrogate_def
  ws_root_def win_root_def empty_fs_def no_errors_def windows_no_errors_def denied_env_def
  no_overwrite_env_def

lemmas run_defs = write_defs extract_intents_def exec_loop.simps eval_defs

text \<open>
  A join with a path that has no \<open>..\<close> segment only adds segments to the root, and one
  pass of the loop changes no file but the one at the joined path.
\<close>

lemma norm_step_prefix: "seg \<noteq> js ''..'' \<Longrightarrow> prefix acc (norm_step acc seg)"
  by (simp add: norm_step_def)

lemma foldl_norm_step_prefix:
  "js ''..'' \<notin> set sgs \<Longrightarrow> prefix acc (foldl norm_step acc sgs)"
proof (induction sgs arbitrary: acc)
  case Nil
  then show ?case by simp
next
  case (Cons seg sgs)
  then have "seg \<noteq> js ''..''" by auto
  then have "prefix acc (norm_step acc seg)" by (rule norm_step_prefix)
  moreover from Cons have "prefix (norm_step acc seg) (foldl norm_step (norm_step acc seg) sgs)"
    by simp
  ultimately show ?case by (simp add: prefix_order.trans)
qed

lemma joinPath_inside:
  "js ''..'' \<notin> set (segments win p) \<Longrightarrow> inside rootPath (joinPath win rootPath p)"
  by (simp add: joinPath_def inside_def Let_def foldl_norm_step_prefix)

lemma write_one_files:
  "files (fsys (write_one env rootPath p c st)) u \<noteq> files (fsys st) u \<Longrightarrow>
   u = joinPath (windows_file env) rootPath p"
  by (auto simp: write_one_def createDirectory_def writeFile_def Let_def
      split: option.splits sum.splits if_splits)

lemma fold_write_one_files:
  assumes "files (fsys (foldl (\<lambda>s i. write_one env rootPath (fst i) (snd i) s) st intents)) u \<noteq>
           files (fsys st) u"
  shows "\<exists>i\<in>set intents. u = joinPath (windows_file env) rootPath (fst i)"
  using assms
proof (induction intents arbitrary: st)
  case Nil
  then show ?case by simp
next
  case (Cons i intents)
  show ?case
  proof (cases "files (fsys (write_one env rootPath (fst i) (snd i) st)) u = files (fsys st) u")
    case True
    with Cons.prems have
      "files (fsys (foldl (\<lambda>s i. write_one env rootPath (fst i) (snd i) s)
         (write_one env rootPath (fst i) (snd i) st) intents)) u \<noteq>
       files (fsys (write_one env rootPath (fst i) (snd i) st)) u"
      by simp
    from Cons.IH [OF this] show ?thesis by simp
  next
    case False
    then have "u = joinPath (windows_file env) rootPath (fst i)" by (rule write_one_files)
    then show ?thesis by simp
  qed
qed

text \<open>
  A pass of the loop whose two file operations succeed shows the intent as saved and
  leaves the bytes of its content in the file and its parent directory among the
  directories; no pass removes a directory.
\<close>

lemma createDirectory_Inr:
  assumes "createDirectory env fs d = Inr fs1"
  shows "files fs1 = files fs" and "dirs fs \<subseteq> dirs fs1" and "d \<in> dirs fs1"
proof -
  from assms have e: "fs1 = fs\<lparr>dirs := dirs fs \<union> (\<lambda>sg. d\<lparr>segs := sg\<rparr>) ` set (prefixes (segs d))\<rparr>"
    by (cases "mkdir_error env fs d") (simp_all add: createDirectory_def)
  show "files fs1 = files fs" by (simp add: e)
  show "dirs fs \<subseteq> dirs fs1" by (simp add: e)
  have "d \<in> (\<lambda>sg. d\<lparr>segs := sg\<rparr>) ` set (prefixes (segs d))"
    by (rule image_eqI [where x = "segs d"]) simp_all
  then show "d \<in> dirs fs1" by (simp add: e)
qed

lemma writeFile_Inr:
  assumes "writeFile env fs p c = Inr fs2"
  shows "files fs2 = (files fs)(p \<mapsto> c)" and "dirs fs2 = dirs fs"
proof -
  from assms have e: "fs2 = fs\<lparr>files := (files fs)(p \<mapsto> c)\<rparr>"
    by (cases "write_error env fs p") (simp_all add: writeFile_def)
  show "files fs2 = (files fs)(p \<mapsto> c)" by (simp add: e)
  show "dirs fs2 = dirs fs" by (simp add: e)
qed

lemma write_one_accept:
  assumes "\<forall>fs'. mkdir_error env fs'
             (joinPath (windows_file env) (joinPath (windows_file env) rootPath p) (js ''..'')) = None"
    and "\<forall>fs'. write_error env fs' (joinPath (windows_file env) rootPath p) = None"
  shows "shown (write_one env rootPath p c st) = shown st @ [SavedInfo p]"
    and "filesWritten (write_one env rootPath p c st) = filesWritten st + 1"
    and "files (fsys (write_one env rootPath p c st)) =
           (files (fsys st))(joinPath (windows_file env) rootPath p \<mapsto> utf8 c)"
    and "joinPath (windows_file env) (joinPath (windows_file env) rootPath p) (js ''..'') \<in>
           dirs (fsys (write_one env rootPath p c st))"
proof -
  let ?a = "joinPath (windows_file env) rootPath p"
  let ?d = "joinPath (windows_file env) ?a (js ''..'')"
  from assms(1) obtain fs1 where 1: "createDirectory env (fsys st) ?d = Inr fs1"
    by (simp add: createDirectory_def)
  from assms(2) obtain fs2 where 2: "writeFile env fs1 ?a (utf8 c) = Inr fs2"
    by (simp add: writeFile_def)
  from 1 2 have w: "write_one env rootPath p c st =
      st\<lparr>fsys := fs2, filesWritten := filesWritten st + 1, shown := shown st @ [SavedInfo p]\<rparr>"
    by (simp add: write_one_def Let_def)
  show "shown (write_one env rootPath p c st) = shown st @ [SavedInfo p]" by (simp add: w)
  show "filesWritten (write_one env rootPath p c st) = filesWritten st + 1" by (simp add: w)
  from createDirectory_Inr(1) [OF 1] writeFile_Inr(1) [OF 2]
  show "files (fsys (write_one env rootPath p c st)) = (files (fsys st))(?a \<mapsto> utf8 c)"
    by (simp add: w)
  from createDirectory_Inr(3) [OF 1] writeFile_Inr(2) [OF 2]
  show "?d \<in> dirs (fsys (write_one env rootPath p c st))" by (simp add: w)
qed

lemma write_one_dirs: "dirs (fsys st) \<subseteq> dirs (fsys (write_one env rootPath p c st))"
proof (cases "createDirectory env (fsys st)
                (joinPath (windows_file env) (joinPath (windows_file env) rootPath p) (js ''..''))")
  case (Inl msg)
  then show ?thesis by (simp add: write_one_def Let_def)
next
  case (Inr fs1)
  note d1 = createDirectory_Inr(2) [OF Inr]
  show ?thesis
  proof (cases "writeFile env fs1 (joinPath (windows_file env) rootPath p) (utf8 c)")
    case (Inl msg)
    with Inr d1 show ?thesis by (simp add: write_one_def Let_def)
  next
    case fs2: (Inr fs2)
    from writeFile_Inr(2) [OF fs2] Inr fs2 d1 show ?thesis by (simp add: write_one_def Let_def)
  qed
qed

lemma fold_write_one_dirs:
  "dirs (fsys st) \<subseteq> dirs (fsys (foldl (\<lambda>s i. write_one env rootPath (fst i) (snd i) s) st intents))"
proof (induction intents arbitrary: st)
  case Nil
  then show ?case by simp
next
  case (Cons i intents)
  from write_one_dirs [of st env rootPath "fst i" "snd i"]
    Cons.IH [of "write_one env rootPath (fst i) (snd i) st"]
  show ?case by auto
qed

lemma fold_write_one_all_saved:
  assumes "\<forall>fs' d. mkdir_error env fs' d = None" and "\<forall>fs' p. write_error env fs' p = None"
  shows "shown (foldl (\<lambda>s i. write_one env rootPath (fst i) (snd i) s) st intents) =
           shown st @ map (\<lambda>i. SavedInfo (fst i)) intents \<and>
         filesWritten (foldl (\<lambda>s i. write_one env rootPath (fst i) (snd i) s) st intents) =
           filesWritten st + length intents \<and>
         files (fsys (foldl (\<lambda>s i. write_one env rootPath (fst i) (snd i) s) st intents)) =
           foldl (\<lambda>m i. m(joinPath (windows_file env) rootPath (fst i) \<mapsto> utf8 (snd i)))
             (files (fsys st)) intents \<and>
         (\<forall>i\<in>set intents.
            joinPath (windows_file env) (joinPath (windows_file env) rootPath (fst i)) (js ''..'') \<in>
            dirs (fsys (foldl (\<lambda>s i. write_one env rootPath (fst i) (snd i) s) st intents)))"
proof (induction intents arbitrary: st)
  case Nil
  then show ?case by simp
next
  case (Cons i intents)
  let ?st1 = "write_one env rootPath (fst i) (snd i) st"
  let ?f = "\<lambda>s i. write_one env rootPath (fst i) (snd i) s"
  have a: "\<forall>fs'. mkdir_error env fs'
             (joinPath (windows_file env) (joinPath (windows_file env) rootPath (fst i)) (js ''..'')) = None"
    using assms(1) by simp
  have b: "\<forall>fs'. write_error env fs' (joinPath (windows_file env) rootPath (fst i)) = None"
    using assms(2) by simp
  note w = write_one_accept [OF a b, of "snd i" st]
  note ih = Cons.IH [of ?st1]
  from fold_write_one_dirs [of ?st1 env rootPath intents] w(4)
  have d: "joinPath (windows_file env) (joinPath (windows_file env) rootPath (fst i)) (js ''..'') \<in>
           dirs (fsys (foldl ?f ?st1 intents))" by blast
  from ih w(1,2,3) d show ?case by simp
qed




lemma write_one_other:
  "joinPath (windows_file env) rootPath p \<noteq> u \<Longrightarrow>
   files (fsys (write_one env rootPath p c st)) u = files (fsys st) u"
  using write_one_files by blast

lemma fold_write_one_other:
  assumes "\<forall>i\<in>set intents. joinPath (windows_file env) rootPath (fst i) \<noteq> u"
  shows "files (fsys (foldl (\<lambda>s i. write_one env rootPath (fst i) (snd i) s) st intents)) u =
         files (fsys st) u"
  using assms fold_write_one_files by blast

text \<open>
  C1 (as amended). With a workspace folder open, \<open>processAndWriteFiles\<close> validates no
  path, refuses no write on account of its path and has no outcome for a path violation.
  Every file it creates or overwrites is at \<open>vscode.Uri.joinPath\<close> of the workspace
  root and the path of one of the intents, and when that path has no \<open>..\<close> segment (its
  segments are separated by the slash, and also by the backslash for a \<open>file\<close> URI on
  Windows; a path that starts with a separator is joined as a relative path) the URI of
  the file is inside the workspace root. When no operation of the file system fails, every intent,
  whatever its path, is written at the join of the root and its path, as the UTF-8 bytes
  of its content, and is reported as saved, its parent directory is created, and the
  number of the intents is reported.
\<close>

theorem writes_at_joined_paths:
  "let result = processAndWriteFiles env (Some (rootPath # others)) responseText fs;
       intents = extract_intents responseText;
       win = windows_file env
   in (\<forall>u. files (fst result) u \<noteq> files fs u \<longrightarrow>
          (\<exists>i\<in>set intents. u = joinPath win rootPath (fst i) \<and>
             (js ''..'' \<notin> set (segments win (fst i)) \<longrightarrow> inside rootPath u))) \<and>
      ((\<forall>fs' d. mkdir_error env fs' d = None) \<and> (\<forall>fs' p. write_error env fs' p = None) \<longrightarrow>
         files (fst result) =
           foldl (\<lambda>m i. m(joinPath win rootPath (fst i) \<mapsto> utf8 (snd i))) (files fs) intents \<and>
         (\<forall>i\<in>set intents.
            joinPath win (joinPath win rootPath (fst i)) (js ''..'') \<in> dirs (fst result)) \<and>
         snd result =
           (map (\<lambda>i. Notify (SavedInfo (fst i))) intents @
            (if intents = [] then [] else [Post (AddSystemMessage (length intents))]), None))"
proof -
  let ?f = "\<lambda>s i. write_one env rootPath (fst i) (snd i) s"
  let ?init = "\<lparr>fsys = fs, filesWritten = 0, shown = []\<rparr>"
  let ?intents = "extract_intents responseText"
  let ?final = "foldl ?f ?init ?intents"
  let ?win = "windows_file env"
  have r: "processAndWriteFiles env (Some (rootPath # others)) responseText fs =
      (fsys ?final, map Notify (shown ?final) @
         (if filesWritten ?final > 0 then [Post (AddSystemMessage (filesWritten ?final))] else []), None)"
    by (simp add: processAndWriteFiles_def Let_def write_files_fold)
  have a: "\<exists>i\<in>set ?intents. u = joinPath ?win rootPath (fst i) \<and>
             (js ''..'' \<notin> set (segments ?win (fst i)) \<longrightarrow> inside rootPath u)"
    if "files (fsys ?final) u \<noteq> files fs u" for u
  proof -
    from that have "files (fsys ?final) u \<noteq> files (fsys ?init) u" by simp
    from fold_write_one_files [OF this] obtain i where
      "i \<in> set ?intents" "u = joinPath ?win rootPath (fst i)" by blast
    then show ?thesis using joinPath_inside by blast
  qed
  have b: "files (fsys ?final) =
             foldl (\<lambda>m i. m(joinPath ?win rootPath (fst i) \<mapsto> utf8 (snd i))) (files fs) ?intents \<and>
           (\<forall>i\<in>set ?intents.
              joinPath ?win (joinPath ?win rootPath (fst i)) (js ''..'') \<in> dirs (fsys ?final)) \<and>
           shown ?final = map (\<lambda>i. SavedInfo (fst i)) ?intents \<and>
           filesWritten ?final = length ?intents"
    if "\<forall>fs' d. mkdir_error env fs' d = None" and "\<forall>fs' p. write_error env fs' p = None"
    using fold_write_one_all_saved [OF that, of rootPath ?init ?intents] by simp
  show ?thesis
    unfolding Let_def r fst_conv snd_conv
  proof (intro conjI allI impI)
    fix u
    assume "files (fsys ?final) u \<noteq> files fs u"
    then show "\<exists>i\<in>set ?intents. u = joinPath ?win rootPath (fst i) \<and>
             (js ''..'' \<notin> set (segments ?win (fst i)) \<longrightarrow> inside rootPath u)"
      by (rule a)
  next
    assume h: "(\<forall>fs' d. mkdir_error env fs' d = None) \<and> (\<forall>fs' p. write_error env fs' p = None)"
    then have h1: "\<forall>fs' d. mkdir_error env fs' d = None"
      and h2: "\<forall>fs' p. write_error env fs' p = None" by simp_all
    note bb = b [OF h1 h2]
    from bb show "files (fsys ?final) =
             foldl (\<lambda>m i. m(joinPath ?win rootPath (fst i) \<mapsto> utf8 (snd i))) (files fs) ?intents"
      by simp
    from bb show "\<forall>i\<in>set ?intents.
              joinPath ?win (joinPath ?win rootPath (fst i)) (js ''..'') \<in> dirs (fsys ?final)"
      by simp
    from bb show "(map Notify (shown ?final) @
         (if filesWritten ?final > 0 then [Post (AddSystemMessage (filesWritten ?final))] else []), None) =
        (map (\<lambda>i. Notify (SavedInfo (fst i))) ?intents @
            (if ?intents = [] then [] else [Post (AddSystemMessage (length ?intents))]), None)"
      by (simp add: comp_def)
  qed
qed

theorem writes_at_joined_paths_witness:
  "files (fst (processAndWriteFiles no_errors (Some [ws_root])
     (js ''intro\<newline>```js\<newline>// FILE: a/b.js\<newline>console.log(1)\<newline>```\<newline>'') empty_fs))
     \<lparr>device = [], segs = [js ''ws'', js ''a'', js ''b.js''], trailing = False\<rparr> =
     Some (js ''console.log(1)'') \<and>
   \<lparr>device = [], segs = [js ''ws'', js ''a'', js ''b.js''], trailing = False\<rparr> =
     joinPath False ws_root (js ''a/b.js'') \<and>
   inside ws_root \<lparr>device = [], segs = [js ''ws'', js ''a'', js ''b.js''], trailing = False\<rparr> \<and>
   \<lparr>device = [], segs = [js ''ws'', js ''a''], trailing = False\<rparr> \<in>
     dirs (fst (processAndWriteFiles no_errors (Some [ws_root])
       (js ''intro\<newline>```js\<newline>// FILE: a/b.js\<newline>console.log(1)\<newline>```\<newline>'') empty_fs)) \<and>
   snd (processAndWriteFiles no_errors (Some [ws_root])
     (js ''intro\<newline>```js\<newline>// FILE: a/b.js\<newline>console.log(1)\<newline>```\<newline>'') empty_fs) =
     ([Notify (SavedInfo (js ''a/b.js'')), Post (AddSystemMessage 1)], None)"
  using writes_at_joined_paths
    [of no_errors ws_root "[]" "js ''intro\<newline>```js\<newline>// FILE: a/b.js\<newline>console.log(1)\<newline>```\<newline>''"
      empty_fs]
  by (simp add: run_defs)

text \<open>
  A path with a parent-directory segment is not refused: with the root \<open>/ws\<close>, the
  intent for \<open>../etc/passwd\<close> is written at \<open>/etc/passwd\<close>, outside the root, and is
  reported as saved. On Windows, with the folder \<open>proj\<close> in \<open>ws\<close> on drive \<open>c:\<close> as
  the root, the intent whose path is \<open>..\<close>, a backslash, \<open>..\<close>, a backslash and
  \<open>evil.txt\<close> is written at \<open>evil.txt\<close> in the root directory of the drive.
\<close>

theorem path_escape_counterexample:
  "files (fst (processAndWriteFiles no_errors (Some [ws_root])
     (js ''```\<newline>// FILE: ../etc/passwd\<newline>root\<newline>```'') empty_fs))
     \<lparr>device = [], segs = [js ''etc'', js ''passwd''], trailing = False\<rparr> = Some (js ''root'') \<and>
   \<not> inside ws_root \<lparr>device = [], segs = [js ''etc'', js ''passwd''], trailing = False\<rparr> \<and>
   snd (processAndWriteFiles no_errors (Some [ws_root])
     (js ''```\<newline>// FILE: ../etc/passwd\<newline>root\<newline>```'') empty_fs) =
     ([Notify (SavedInfo (js ''../etc/passwd'')), Post (AddSystemMessage 1)], None) \<and>
   files (fst (processAndWriteFiles windows_no_errors (Some [win_root])
     (js ''```\<newline>// FILE: ..'' @ [92] @ js ''..'' @ [92] @ js ''evil.txt\<newline>x\<newline>```'') empty_fs))
     \<lparr>device = js ''c:'', segs = [js ''evil.txt''], trailing = False\<rparr> = Some (js ''x'') \<and>
   \<not> inside win_root \<lparr>device = js ''c:'', segs = [js ''evil.txt''], trailing = False\<rparr>"
  by (simp add: run_defs)




text \<open>
  C8 (as amended). Let a response be made of blocks as the pattern takes them (a fence,
  a language tag of letters, digits and underscores, white space, a line feed, the
  marker with the path up to a line feed, the body, a line feed and the closing fence,
  which is the first fence at the start of a line after the marker line; no head of a
  block in the text before the block), followed by text in which no opening with a
  marker line is followed by a fence at the start of a line, and let a workspace folder
  be open. Extraction yields one intent per block and application attempts them in
  document order. When \<open>b\<close> is the last block whose path joins to its file, and the file
  system accepts the creation of the parent directory and the write of that file, the
  final content of the file is the content of \<open>b\<close> alone (the UTF-8 bytes of its trimmed
  body, a surrogate that stands alone written as U+FFFD), whatever the blocks before
  \<open>b\<close> wrote into it.
\<close>

theorem last_block_wins:
  assumes "\<forall>b'\<in>set (bs1 @ b # bs2). well_formed b'" and "\<not> has_block rest"
    and "\<forall>b'\<in>set bs2.
           joinPath (windows_file env) rootPath (trim (blk_arg b')) \<noteq>
           joinPath (windows_file env) rootPath (trim (blk_arg b))"
    and "\<forall>fs'. mkdir_error env fs'
           (joinPath (windows_file env) (joinPath (windows_file env) rootPath (trim (blk_arg b)))
              (js ''..'')) = None"
    and "\<forall>fs'. write_error env fs' (joinPath (windows_file env) rootPath (trim (blk_arg b))) = None"
  shows "extract_intents (response (bs1 @ b # bs2) rest) = map intent_of (bs1 @ b # bs2) \<and>
         files (fst (processAndWriteFiles env (Some (rootPath # others))
                  (response (bs1 @ b # bs2) rest) fs))
           (joinPath (windows_file env) rootPath (trim (blk_arg b))) =
           Some (utf8 (trim (blk_body b)))"
proof
  let ?f = "\<lambda>s i. write_one env rootPath (fst i) (snd i) s"
  let ?u = "joinPath (windows_file env) rootPath (trim (blk_arg b))"
  let ?init = "\<lparr>fsys = fs, filesWritten = 0, shown = []\<rparr>"
  show e: "extract_intents (response (bs1 @ b # bs2) rest) = map intent_of (bs1 @ b # bs2)"
    using extract_intents_blocks [OF assms(1), of rest] extract_intents_no_block [OF assms(2)]
    by simp
  let ?mid = "foldl ?f ?init (map intent_of bs1)"
  let ?after = "write_one env rootPath (trim (blk_arg b)) (trim (blk_body b)) ?mid"
  have "\<forall>i\<in>set (map intent_of bs2). joinPath (windows_file env) rootPath (fst i) \<noteq> ?u"
    using assms(3) by (simp add: intent_of_def)
  then have "files (fsys (foldl ?f ?after (map intent_of bs2))) ?u = files (fsys ?after) ?u"
    by (rule fold_write_one_other)
  also have "\<dots> = Some (utf8 (trim (blk_body b)))"
    using write_one_accept(3) [OF assms(4,5), of "trim (blk_body b)" ?mid] by simp
  finally show "files (fst (processAndWriteFiles env (Some (rootPath # others))
                  (response (bs1 @ b # bs2) rest) fs)) ?u = Some (utf8 (trim (blk_body b)))"
    by (simp add: processAndWriteFiles_def Let_def write_files_fold e intent_of_def)
qed

theorem last_block_wins_witness:
  "files (fst (processAndWriteFiles no_errors (Some [ws_root])
     (js ''```\<newline>// FILE: a.txt\<newline>one\<newline>```\<newline>```\<newline>// FILE: a.txt\<newline>two\<newline>```'') empty_fs))
     \<lparr>device = [], segs = [js ''ws'', js ''a.txt''], trailing = False\<rparr> = Some (js ''two'')"
proof -
  let ?b1 = "\<lparr>blk_prose = [], blk_lang = [], blk_pad = [], blk_arg = js ''a.txt'',
              blk_body = js ''one''\<rparr>"
  let ?b2 = "\<lparr>blk_prose = [10], blk_lang = [], blk_pad = [], blk_arg = js ''a.txt'',
              blk_body = js ''two''\<rparr>"
  have h1: "\<forall>b'\<in>set ([?b1] @ ?b2 # []). well_formed b'"
    by (simp add: well_formed_def eval_defs)
  have h2: "\<not> has_block []" by simp
  have h3: "\<forall>b'\<in>set [].
           joinPath (windows_file no_errors) ws_root (trim (blk_arg b')) \<noteq>
           joinPath (windows_file no_errors) ws_root (trim (blk_arg ?b2))"
    by simp
  have h4: "\<forall>fs'. mkdir_error no_errors fs'
           (joinPath (windows_file no_errors)
              (joinPath (windows_file no_errors) ws_root (trim (blk_arg ?b2))) (js ''..'')) = None"
    by (simp add: no_errors_def)
  have h5: "\<forall>fs'. write_error no_errors fs'
           (joinPath (windows_file no_errors) ws_root (trim (blk_arg ?b2))) = None"
    by (simp add: no_errors_def)
  from last_block_wins [OF h1 h2 h3 h4 h5, of "[]" empty_fs]
  show ?thesis
    by (simp add: response_def render_block_def joinPath_def segments_def is_sep_def
        norm_step_def no_errors_def ws_root_def utf8_enc_def is_high_surrogate_def
        is_low_surrogate_def eval_defs)
qed

text \<open>
  Two blocks for one path whose language tag is \<open>c++\<close> give no intent and write
  nothing. When the file system refuses to overwrite a file, the write of the second
  block fails and the file keeps the content of the first. A body that is a surrogate
  standing alone is written as the three bytes of U+FFFD.
\<close>

theorem last_block_counterexample:
  "processAndWriteFiles no_errors (Some [ws_root])
     (js ''```c++\<newline>// FILE: a.txt\<newline>one\<newline>```\<newline>```c++\<newline>// FILE: a.txt\<newline>two\<newline>```'') empty_fs =
     (empty_fs, [], None) \<and>
   files (fst (processAndWriteFiles no_overwrite_env (Some [ws_root])
     (js ''```\<newline>// FILE: a.txt\<newline>one\<newline>```\<newline>```\<newline>// FILE: a.txt\<newline>two\<newline>```'') empty_fs))
     \<lparr>device = [], segs = [js ''ws'', js ''a.txt''], trailing = False\<rparr> = Some (js ''one'') \<and>
   snd (processAndWriteFiles no_overwrite_env (Some [ws_root])
     (js ''```\<newline>// FILE: a.txt\<newline>one\<newline>```\<newline>```\<newline>// FILE: a.txt\<newline>two\<newline>```'') empty_fs) =
     ([Notify (SavedInfo (js ''a.txt'')), Notify (SaveFailed (js ''a.txt'') (js ''EPERM'')),
       Post (AddSystemMessage 1)], None) \<and>
   files (fst (processAndWriteFiles no_errors (Some [ws_root])
     (js ''```\<newline>// FILE: a.txt\<newline>'' @ [55357] @ js ''\<newline>```'') empty_fs))
     \<lparr>device = [], segs = [js ''ws'', js ''a.txt''], trailing = False\<rparr> = Some [239, 191, 189]"
  by (simp add: run_defs)

end
